theory Spec2Isabelle
  imports Main "HOL-Library.Char_ord" "HOL-Library.List_Lexorder" "HOL-Library.Multiset"
begin

section \<open>Python strings\<close>

text \<open>
  A Python \<open>str\<close> is modelled as a \<open>string\<close>: each \<open>char\<close> stands for
  the code point of the same number, so the embedding covers texts whose code points lie
  below 256.  The character tests below are what \<open>str.isspace\<close>, the pattern classes
  \<open>\s\<close> and \<open>\w\<close> and \<open>str.lower\<close> do on that range.
\<close>

definition newline :: char where
  "newline = CHR 0x0A"

definition is_space :: "char \<Rightarrow> bool" where
  "is_space c = (c \<in> set [CHR 0x09, CHR 0x0A, CHR 0x0B, CHR 0x0C, CHR 0x0D,
                          CHR 0x1C, CHR 0x1D, CHR 0x1E, CHR 0x1F, CHR 0x20,
                          CHR 0x85, CHR 0xA0])"

definition is_word :: "char \<Rightarrow> bool" where
  "is_word c = (let n = (of_char c :: nat) in
      (48 \<le> n \<and> n \<le> 57) \<or> (65 \<le> n \<and> n \<le> 90) \<or> n = 95 \<or> (97 \<le> n \<and> n \<le> 122) \<or>
      n = 170 \<or> n = 178 \<or> n = 179 \<or> n = 181 \<or> n = 185 \<or> n = 186 \<or>
      n = 188 \<or> n = 189 \<or> n = 190 \<or> (192 \<le> n \<and> n \<le> 214) \<or>
      (216 \<le> n \<and> n \<le> 246) \<or> 248 \<le> n)"

definition lower_char :: "char \<Rightarrow> char" where
  "lower_char c = (let n = (of_char c :: nat) in
      if (65 \<le> n \<and> n \<le> 90) \<or> (192 \<le> n \<and> n \<le> 214) \<or> (216 \<le> n \<and> n \<le> 222)
      then char_of (n + 32) else c)"

text \<open>\<open>s.lower()\<close>\<close>

definition lower :: "string \<Rightarrow> string" where
  "lower s = map lower_char s"

text \<open>\<open>s.lstrip()\<close>, \<open>s.rstrip()\<close>, \<open>s.strip()\<close> and \<open>s.rstrip(',')\<close>\<close>

definition lstrip :: "string \<Rightarrow> string" where
  "lstrip s = dropWhile is_space s"

definition rstrip :: "string \<Rightarrow> string" where
  "rstrip s = rev (dropWhile is_space (rev s))"

definition strip :: "string \<Rightarrow> string" where
  "strip s = rstrip (lstrip s)"

definition rstrip_chars :: "string \<Rightarrow> string \<Rightarrow> string" where
  "rstrip_chars cs s = rev (dropWhile (\<lambda>c. c \<in> set cs) (rev s))"

text \<open>\<open>s.startswith(p)\<close>\<close>

definition startswith :: "string \<Rightarrow> string \<Rightarrow> bool" where
  "startswith p s = (take (length p) s = p)"

text \<open>\<open>sub in s\<close>\<close>

fun py_in :: "string \<Rightarrow> string \<Rightarrow> bool" where
  "py_in sub [] = (sub = [])"
| "py_in sub (x # xs) = (startswith sub (x # xs) \<or> py_in sub xs)"

text \<open>\<open>s.split(sep)\<close> for a separator of one character: never the empty list.\<close>

fun split_on :: "char \<Rightarrow> string \<Rightarrow> string list" where
  "split_on sep [] = [[]]"
| "split_on sep (x # xs) =
     (if x = sep then [] # split_on sep xs
      else (case split_on sep xs of [] \<Rightarrow> [[x]] | w # ws \<Rightarrow> (x # w) # ws))"

text \<open>\<open>s.split(sep, 1)\<close> on a string that contains \<open>sep\<close>: the text before the
  first separator and the text after it.\<close>

definition split_once :: "char \<Rightarrow> string \<Rightarrow> string \<times> string" where
  "split_once sep s = (takeWhile (\<lambda>c. c \<noteq> sep) s, drop 1 (dropWhile (\<lambda>c. c \<noteq> sep) s))"

text \<open>\<open>sep.join(parts)\<close>\<close>

fun join :: "string \<Rightarrow> string list \<Rightarrow> string" where
  "join sep [] = []"
| "join sep [x] = x"
| "join sep (x # y # zs) = x @ sep @ join sep (y # zs)"

text \<open>\<open>s.count('\n')\<close>\<close>

definition count_char :: "char \<Rightarrow> string \<Rightarrow> nat" where
  "count_char c s = length (filter (\<lambda>x. x = c) s)"

text \<open>\<open>str(n)\<close> for a non-negative integer.\<close>

definition digit_char :: "nat \<Rightarrow> char" where
  "digit_char d = char_of (48 + d)"

function str_nat :: "nat \<Rightarrow> string" where
  "str_nat n = (if n < 10 then [digit_char n] else str_nat (n div 10) @ [digit_char (n mod 10)])"
  by pat_completeness auto
termination
  by (relation "measure id") auto

section \<open>Pattern matching\<close>

text \<open>
  The patterns of the source use literals, the classes \<open>.\<close>, \<open>\s\<close>, \<open>\w\<close> and
  \<open>[^...]\<close>, sequence, alternation, the greedy \<open>*\<close>, \<open>+\<close>, \<open>?\<close>, the lazy
  \<open>*?\<close> and capturing groups.  \<open>matches r (s, c)\<close> lists, in the order in which a
  backtracking matcher tries them, every way \<open>r\<close> can match a prefix of \<open>s\<close>: the
  text left over and the groups captured.  The first element is the match Python reports.
  A repetition only continues after an iteration that consumed a character; every repeated
  sub-pattern of the source consumes one (\<open>stars_consume\<close> below).
\<close>

datatype atom = Chr char | AnyChar | NotNewline | Space | Word | NoneOf string

fun atom_ok :: "atom \<Rightarrow> char \<Rightarrow> bool" where
  "atom_ok (Chr c) x = (x = c)"
| "atom_ok AnyChar x = True"
| "atom_ok NotNewline x = (x \<noteq> newline)"
| "atom_ok Space x = is_space x"
| "atom_ok Word x = is_word x"
| "atom_ok (NoneOf cs) x = (x \<notin> set cs)"

datatype regex = Eps | Atom atom | Seq regex regex | Alt regex regex
  | Star regex | LazyStar regex | Group string regex

type_synonym caps = "string \<Rightarrow> string option"
type_synonym mstate = "string \<times> caps"

function matches :: "regex \<Rightarrow> mstate \<Rightarrow> mstate list" where
  "matches Eps st = [st]"
| "matches (Atom a) st =
     (case fst st of [] \<Rightarrow> [] | x # xs \<Rightarrow> if atom_ok a x then [(xs, snd st)] else [])"
| "matches (Seq r1 r2) st = concat (map (matches r2) (matches r1 st))"
| "matches (Alt r1 r2) st = matches r1 st @ matches r2 st"
| "matches (Star r) st =
     concat (map (\<lambda>st'. if length (fst st') < length (fst st) then matches (Star r) st' else [])
                 (matches r st)) @ [st]"
| "matches (LazyStar r) st =
     st # concat (map (\<lambda>st'. if length (fst st') < length (fst st)
                               then matches (LazyStar r) st' else [])
                      (matches r st))"
| "matches (Group n r) st =
     map (\<lambda>st'. (fst st', (snd st')(n \<mapsto> take (length (fst st) - length (fst st')) (fst st))))
         (matches r st)"
  by pat_completeness auto
termination
  by (relation "inv_image (less_than <*lex*> less_than) (\<lambda>(r, st). (size r, length (fst st)))")
     auto

text \<open>\<open>r+\<close>, \<open>r?\<close>, a literal text and a sequence of patterns.\<close>

definition Plus :: "regex \<Rightarrow> regex" where
  "Plus r = Seq r (Star r)"

definition Opt :: "regex \<Rightarrow> regex" where
  "Opt r = Alt r Eps"

fun lits :: "string \<Rightarrow> regex" where
  "lits [] = Eps"
| "lits (c # cs) = Seq (Atom (Chr c)) (lits cs)"

fun seqs :: "regex list \<Rightarrow> regex" where
  "seqs [] = Eps"
| "seqs (r # rs) = Seq r (seqs rs)"

text \<open>A pattern every match of which consumes a character, and a pattern all of whose
  repetitions have such a body.\<close>

fun consumes :: "regex \<Rightarrow> bool" where
  "consumes Eps = False"
| "consumes (Atom a) = True"
| "consumes (Seq r1 r2) = (consumes r1 \<or> consumes r2)"
| "consumes (Alt r1 r2) = (consumes r1 \<and> consumes r2)"
| "consumes (Star r) = False"
| "consumes (LazyStar r) = False"
| "consumes (Group n r) = consumes r"

fun stars_consume :: "regex \<Rightarrow> bool" where
  "stars_consume Eps = True"
| "stars_consume (Atom a) = True"
| "stars_consume (Seq r1 r2) = (stars_consume r1 \<and> stars_consume r2)"
| "stars_consume (Alt r1 r2) = (stars_consume r1 \<and> stars_consume r2)"
| "stars_consume (Star r) = (consumes r \<and> stars_consume r)"
| "stars_consume (LazyStar r) = (consumes r \<and> stars_consume r)"
| "stars_consume (Group n r) = stars_consume r"

text \<open>
  A match object: where the match starts and ends in the text, and its groups
  (\<open>None\<close> for a group that took no part in the match).
\<close>

record rmatch =
  m_start :: nat
  m_end :: nat
  m_group :: caps

text \<open>
  \<open>pattern.finditer(content)\<close>: the matches from left to right, each search starting
  where the previous match ended.  No pattern has an anchor or a look-behind, so a match at
  \<open>pos\<close> depends on \<open>drop pos content\<close> only.  After an empty match the scan moves
  one character on; the patterns of the source have no empty match (\<open>consumes\<close>).
\<close>

function finditer_from :: "regex \<Rightarrow> string \<Rightarrow> nat \<Rightarrow> rmatch list" where
  "finditer_from r content pos =
     (if length content < pos then []
      else (case matches r (drop pos content, Map.empty) of
              [] \<Rightarrow> finditer_from r content (Suc pos)
            | st # _ \<Rightarrow>
                (let e = length content - length (fst st) in
                 \<lparr>m_start = pos, m_end = e, m_group = snd st\<rparr> #
                 (if pos < e then finditer_from r content e
                  else finditer_from r content (Suc pos)))))"
  by pat_completeness auto
termination
  by (relation "measure (\<lambda>(r, content, pos). Suc (length content) - pos)") auto

definition finditer :: "regex \<Rightarrow> string \<Rightarrow> rmatch list" where
  "finditer r content = finditer_from r content 0"

text \<open>\<open>pattern.search(content)\<close>: the leftmost match, if any.\<close>

definition search :: "regex \<Rightarrow> string \<Rightarrow> rmatch option" where
  "search r content = (case finditer r content of [] \<Rightarrow> None | m # _ \<Rightarrow> Some m)"

text \<open>\<open>re.findall(pattern, text)\<close> for a pattern with one group: the text of the group in
  every match, the empty text where the group took no part.\<close>

definition findall :: "regex \<Rightarrow> string \<Rightarrow> string list" where
  "findall r content =
     map (\<lambda>m. case m_group m ''1'' of None \<Rightarrow> [] | Some g \<Rightarrow> g) (finditer r content)"

section \<open>Data model\<close>

record StructInfo =
  s_name :: string
  s_doc_comment :: string
  s_fields :: "(string \<times> string \<times> string) list"
  s_attributes :: "string list"
  s_file_path :: string
  s_line_number :: nat
  s_size_calculation :: "string option"

record FunctionInfo =
  f_name :: string
  f_doc_comment :: string
  f_signature :: string
  f_file_path :: string
  f_line_number :: nat
  f_is_public :: bool
  f_parameters :: "(string \<times> string) list"
  f_return_type :: string

text \<open>The two collections of \<open>RustDocExtractor\<close>.\<close>

record extractor =
  structs :: "StructInfo list"
  "functions" :: "FunctionInfo list"

text \<open>
  What the extraction code could raise.  A group that took no part in a match reads as
  \<open>None\<close>: passing it to \<open>re.findall\<close> or \<open>finditer\<close> is a \<open>TypeError\<close>,
  calling \<open>.strip()\<close> on it an \<open>AttributeError\<close>.  Where Python would store such a
  \<open>None\<close> in a field declared \<open>str\<close>, the model fails with \<open>MissingGroup\<close>.
\<close>

datatype py_error = TypeError | AttributeError | MissingGroup

section \<open>RustDocExtractor\<close>

subsection \<open>The patterns\<close>

text \<open>\<open>(?P<doc>(?:///.*\n)*)\<close>; with \<open>re.DOTALL\<close> the dot matches a newline too.\<close>

definition doc_group :: "atom \<Rightarrow> regex" where
  "doc_group dot = Group ''doc'' (Star (seqs [lits ''///'', Star (Atom dot), Atom (Chr newline)]))"

text \<open>\<open>(?:<[^>]*>)?\<close>\<close>

definition generics :: regex where
  "generics = Opt (seqs [Atom (Chr CHR ''<''), Star (Atom (NoneOf ''>'')), Atom (Chr CHR ''>'')])"

text \<open>The pattern of \<open>_extract_structs\<close>, compiled with \<open>re.MULTILINE | re.DOTALL\<close>.\<close>

definition struct_pattern :: regex where
  "struct_pattern = seqs [
     doc_group AnyChar, Star (Atom Space),
     Group ''attrs'' (Star (seqs [lits ''#['', Star (Atom AnyChar), Atom (Chr CHR '']''),
                                  Star (Atom Space)])),
     lits ''pub'', Plus (Atom Space), lits ''struct'', Plus (Atom Space),
     Group ''name'' (Plus (Atom Word)), Star (Atom Space),
     generics, Star (Atom Space), Atom (Chr CHR ''{''), Star (Atom Space),
     Group ''fields'' (LazyStar (Atom AnyChar)), Star (Atom Space), Atom (Chr CHR ''}'')]"

text \<open>The pattern of \<open>_extract_functions\<close>, compiled with \<open>re.MULTILINE\<close>.\<close>

definition func_pattern :: regex where
  "func_pattern = seqs [
     doc_group NotNewline, Star (Atom Space),
     Opt (Group ''visibility'' (Seq (lits ''pub'') (Plus (Atom Space)))),
     lits ''fn'', Plus (Atom Space),
     Group ''name'' (Plus (Atom Word)), Star (Atom Space),
     generics, Star (Atom Space),
     Atom (Chr CHR ''(''), Group ''params'' (Star (Atom (NoneOf '')''))), Atom (Chr CHR '')''),
     Star (Atom Space),
     Opt (seqs [lits ''->'', Star (Atom Space), Group ''return'' (Plus (Atom (NoneOf ''{;'')))]),
     Star (Atom Space),
     Alt (Atom (Chr CHR ''{'')) (Atom (Chr CHR '';''))]"

text \<open>The pattern of \<open>_extract_fields\<close>, compiled with \<open>re.MULTILINE\<close>.\<close>

definition field_pattern :: regex where
  "field_pattern = seqs [
     doc_group NotNewline, Star (Atom Space),
     lits ''pub'', Plus (Atom Space),
     Group ''name'' (Plus (Atom Word)), Star (Atom Space),
     Atom (Chr CHR '':''), Star (Atom Space),
     Group ''type'' (Plus (Atom (NoneOf ('','' @ [newline]))))]"

text \<open>\<open>#\[([^\]]+)\]\<close>\<close>

definition attr_pattern :: regex where
  "attr_pattern = seqs [lits ''#['', Group ''1'' (Plus (Atom (NoneOf '']''))), Atom (Chr CHR '']'')]"

text \<open>The pattern of \<open>_find_size_calculation\<close>, with the struct's name spliced in.\<close>

definition impl_pattern :: "string \<Rightarrow> regex" where
  "impl_pattern struct_name = seqs [
     lits ''impl'', Plus (Atom Space),
     Alt (lits struct_name)
         (seqs [lits ''ZeroCopyAccount'', Plus (Atom Space), lits ''for'', Plus (Atom Space),
                lits struct_name]),
     Star (Atom Space), Atom (Chr CHR ''{''), LazyStar (Atom (NoneOf ''}'')),
     lits ''fn'', Plus (Atom Space), lits ''space()'', Star (Atom Space), lits ''->'',
     Star (Atom Space), lits ''usize'', Star (Atom Space), Atom (Chr CHR ''{''),
     Star (Atom Space), Group ''1'' (Plus (Atom (NoneOf ''}''))), Star (Atom Space),
     Atom (Chr CHR ''}'')]"

subsection \<open>\<open>_clean_doc_comment\<close>\<close>

fun clean_lines :: "string list \<Rightarrow> string list \<Rightarrow> string list" where
  "clean_lines [] cleaned_lines = cleaned_lines"
| "clean_lines (line # lines) cleaned_lines =
     (let line = strip line in
      if startswith ''///'' line then clean_lines lines (cleaned_lines @ [strip (drop 3 line)])
      else if startswith ''//!'' line then clean_lines lines (cleaned_lines @ [strip (drop 3 line)])
      else clean_lines lines cleaned_lines)"

text \<open>\<open>not doc_text\<close> holds for \<open>None\<close> and for the empty string.\<close>

definition clean_doc_comment :: "string option \<Rightarrow> string" where
  "clean_doc_comment doc_text =
     (case doc_text of
        None \<Rightarrow> []
      | Some d \<Rightarrow> if d = [] then []
                  else join [newline] (clean_lines (split_on newline (strip d)) []))"

subsection \<open>\<open>_extract_fields\<close>\<close>

definition field_of_match :: "rmatch \<Rightarrow> py_error + (string \<times> string \<times> string)" where
  "field_of_match m =
     (let doc = clean_doc_comment (m_group m ''doc'') in
      case m_group m ''name'' of
        None \<Rightarrow> Inl MissingGroup
      | Some name \<Rightarrow>
          (case m_group m ''type'' of
             None \<Rightarrow> Inl AttributeError
           | Some t \<Rightarrow> Inr (name, rstrip_chars '','' (strip t), doc)))"

fun fields_loop ::
  "rmatch list \<Rightarrow> (string \<times> string \<times> string) list \<Rightarrow> py_error + (string \<times> string \<times> string) list"
where
  "fields_loop [] flds = Inr flds"
| "fields_loop (m # ms) flds =
     (case field_of_match m of Inl e \<Rightarrow> Inl e | Inr f \<Rightarrow> fields_loop ms (flds @ [f]))"

definition extract_fields :: "string option \<Rightarrow> py_error + (string \<times> string \<times> string) list" where
  "extract_fields fields_text =
     (case fields_text of
        None \<Rightarrow> Inl TypeError
      | Some t \<Rightarrow> fields_loop (finditer field_pattern t) [])"

subsection \<open>\<open>_extract_parameters\<close>\<close>

fun params_loop :: "string list \<Rightarrow> (string \<times> string) list \<Rightarrow> (string \<times> string) list" where
  "params_loop [] parameters = parameters"
| "params_loop (param # param_parts) parameters =
     (let param = strip param in
      if py_in '':'' param then
        (let (name_part, type_part) = split_once CHR '':'' param;
             name = strip name_part;
             param_type = strip type_part;
             name = (if startswith ''mut '' name then drop 4 name else name);
             name = (if startswith ''&'' name then drop 1 name else name)
         in params_loop param_parts (parameters @ [(name, param_type)]))
      else params_loop param_parts parameters)"

definition extract_parameters :: "string \<Rightarrow> (string \<times> string) list" where
  "extract_parameters params_text =
     (if strip params_text = [] then []
      else params_loop (split_on CHR '','' params_text) [])"

subsection \<open>\<open>_find_size_calculation\<close>\<close>

definition find_size_calculation :: "string \<Rightarrow> string \<Rightarrow> py_error + string option" where
  "find_size_calculation content struct_name =
     (case search (impl_pattern struct_name) content of
        None \<Rightarrow> Inr None
      | Some m \<Rightarrow> (case m_group m ''1'' of
                    None \<Rightarrow> Inl AttributeError
                  | Some g \<Rightarrow> Inr (Some (strip g))))"

subsection \<open>\<open>_extract_structs\<close>\<close>

text \<open>
  The body of the loop over the matches.  \<open>file_path\<close> is the path of the file relative
  to the source directory, as \<open>str(file_path.relative_to(self.source_dir))\<close> gives it.
\<close>

definition struct_of_match :: "string \<Rightarrow> string \<Rightarrow> rmatch \<Rightarrow> py_error + StructInfo" where
  "struct_of_match content file_path m =
     (let doc_comment = clean_doc_comment (m_group m ''doc'') in
      case m_group m ''attrs'' of
        None \<Rightarrow> Inl TypeError
      | Some attrs_text \<Rightarrow>
          (let attrs = map strip (findall attr_pattern attrs_text) in
           case m_group m ''name'' of
             None \<Rightarrow> Inl MissingGroup
           | Some name \<Rightarrow>
               (case extract_fields (m_group m ''fields'') of
                  Inl e \<Rightarrow> Inl e
                | Inr flds \<Rightarrow>
                    (let line_number = count_char newline (take (m_start m) content) + 1 in
                     case find_size_calculation content name of
                       Inl e \<Rightarrow> Inl e
                     | Inr size_calc \<Rightarrow>
                         Inr \<lparr>s_name = name, s_doc_comment = doc_comment, s_fields = flds,
                              s_attributes = attrs, s_file_path = file_path,
                              s_line_number = line_number,
                              s_size_calculation = size_calc\<rparr>))))"

fun structs_loop :: "string \<Rightarrow> string \<Rightarrow> rmatch list \<Rightarrow> extractor \<Rightarrow> py_error + extractor" where
  "structs_loop content file_path [] ex = Inr ex"
| "structs_loop content file_path (m # ms) ex =
     (case struct_of_match content file_path m of
        Inl e \<Rightarrow> Inl e
      | Inr struct_info \<Rightarrow>
          structs_loop content file_path ms (ex\<lparr>structs := structs ex @ [struct_info]\<rparr>))"

definition extract_structs :: "extractor \<Rightarrow> string \<Rightarrow> string \<Rightarrow> py_error + extractor" where
  "extract_structs ex content file_path =
     structs_loop content file_path (finditer struct_pattern content) ex"

subsection \<open>\<open>_extract_functions\<close>\<close>

definition function_of_match :: "string \<Rightarrow> string \<Rightarrow> rmatch \<Rightarrow> py_error + FunctionInfo" where
  "function_of_match content file_path m =
     (let doc_comment = clean_doc_comment (m_group m ''doc'') in
      case m_group m ''name'' of
        None \<Rightarrow> Inl MissingGroup
      | Some name \<Rightarrow>
          (let is_public = (m_group m ''visibility'' \<noteq> None);
               params_text = (case m_group m ''params'' of None \<Rightarrow> [] | Some p \<Rightarrow> p);
               return_type = (case m_group m ''return'' of
                                None \<Rightarrow> ''()''
                              | Some r \<Rightarrow> if r = [] then ''()'' else r);
               parameters = extract_parameters params_text;
               line_number = count_char newline (take (m_start m) content) + 1;
               signature = ''fn '' @ name @ ''('' @ params_text @ '') -> '' @ strip return_type
           in Inr \<lparr>f_name = name, f_doc_comment = doc_comment, f_signature = signature,
                    f_file_path = file_path, f_line_number = line_number,
                    f_is_public = is_public, f_parameters = parameters,
                    f_return_type = strip return_type\<rparr>))"

fun functions_loop :: "string \<Rightarrow> string \<Rightarrow> rmatch list \<Rightarrow> extractor \<Rightarrow> py_error + extractor" where
  "functions_loop content file_path [] ex = Inr ex"
| "functions_loop content file_path (m # ms) ex =
     (case function_of_match content file_path m of
        Inl e \<Rightarrow> Inl e
      | Inr func_info \<Rightarrow>
          functions_loop content file_path ms (ex\<lparr>functions := functions ex @ [func_info]\<rparr>))"

definition extract_functions :: "extractor \<Rightarrow> string \<Rightarrow> string \<Rightarrow> py_error + extractor" where
  "extract_functions ex content file_path =
     functions_loop content file_path (finditer func_pattern content) ex"

section \<open>DocumentationGenerator\<close>

text \<open>
  The output directory is a map from file names to file texts.  \<open>_write_file\<close> joins
  the pieces of \<open>content\<close> and stores them under the file's name.
\<close>

type_synonym files = "string \<rightharpoonup> string"

definition write_file :: "string \<Rightarrow> string list \<Rightarrow> files \<Rightarrow> files" where
  "write_file filename content fs = fs(filename \<mapsto> concat content)"

subsection \<open>\<open>_generate_struct_section\<close> and \<open>_generate_function_section\<close>\<close>

definition field_lines :: "string \<times> string \<times> string \<Rightarrow> string list" where
  "field_lines f =
     (case f of (name, field_type, doc) \<Rightarrow>
        [''- `'' @ name @ '': '' @ field_type @ ''`''] @
        (if doc \<noteq> [] then ['' - '' @ doc] else []) @
        [[newline]])"

definition generate_struct_section :: "StructInfo \<Rightarrow> string list" where
  "generate_struct_section struct =
     [''### '' @ s_name struct @ [newline],
      ''**Location**: `'' @ s_file_path struct @ '':'' @ str_nat (s_line_number struct) @ ''`'' @
        [newline]] @
     (if s_attributes struct \<noteq> []
      then [''**Attributes**: `'' @ join '', '' (s_attributes struct) @ ''`'' @ [newline]]
      else []) @
     (if s_doc_comment struct \<noteq> [] then [s_doc_comment struct, [newline]] else []) @
     (case s_size_calculation struct of
        None \<Rightarrow> []
      | Some sc \<Rightarrow>
          if sc \<noteq> []
          then [''**Size Calculation**:'' @ [newline], ''```rust'' @ [newline], sc,
                [newline] @ ''```'' @ [newline]]
          else []) @
     (if s_fields struct \<noteq> []
      then foldl (\<lambda>content f. content @ field_lines f) [''**Fields**:'' @ [newline]]
                 (s_fields struct)
      else []) @
     [[newline]]"

definition generate_function_section :: "FunctionInfo \<Rightarrow> string list" where
  "generate_function_section func =
     [''### '' @ f_name func @ [newline],
      ''**Location**: `'' @ f_file_path func @ '':'' @ str_nat (f_line_number func) @ ''`'' @
        [newline],
      ''**Signature**: `'' @ f_signature func @ ''`'' @ [newline]] @
     (if f_doc_comment func \<noteq> [] then [f_doc_comment func, [newline]] else []) @
     (if f_parameters func \<noteq> []
      then foldl (\<lambda>content (name, param_type).
                    content @ [''- `'' @ name @ '': '' @ param_type @ ''`'' @ [newline]])
                 [''**Parameters**:'' @ [newline]] (f_parameters func)
      else []) @
     [''**Returns**: `'' @ f_return_type func @ ''`'' @ [newline, newline]]"

subsection \<open>\<open>generate_zero_copy_reference\<close>\<close>

definition zero_copy_content :: "StructInfo list \<Rightarrow> string list" where
  "zero_copy_content zero_copy_structs =
     foldl (\<lambda>content struct. content @ generate_struct_section struct)
       [''# Zero-Copy Structures Reference'' @ [newline],
        ''This document provides detailed reference information for all zero-copy structures '',
        ''in the Solana Borrow-Lending Protocol.'' @ [newline],
        ''## Overview'' @ [newline],
        ''Total zero-copy structures: **'' @ str_nat (length zero_copy_structs) @ ''**'' @
          [newline]]
       zero_copy_structs"

definition generate_zero_copy_reference :: "extractor \<Rightarrow> files \<Rightarrow> files" where
  "generate_zero_copy_reference ex fs =
     (let zero_copy_structs =
            filter (\<lambda>s. py_in ''account(zero_copy)'' (join '' '' (s_attributes s))) (structs ex)
      in if zero_copy_structs = [] then fs
         else write_file ''zero-copy-reference.md'' (zero_copy_content zero_copy_structs) fs)"

subsection \<open>\<open>generate_api_structures\<close>\<close>

text \<open>The dictionary \<open>categories\<close>, its keys in the order in which the literal lists them
  (the order in which \<open>categories.items()\<close> yields them).\<close>

definition categories_init :: "(string \<times> StructInfo list) list" where
  "categories_init =
     [(''Account Structures'', []),
      (''Data Structures'', []),
      (''Configuration Structures'', []),
      (''Other Structures'', [])]"

text \<open>\<open>d[key].append(x)\<close> on a dictionary that has the key.\<close>

definition dict_append :: "string \<Rightarrow> 'a \<Rightarrow> (string \<times> 'a list) list \<Rightarrow> (string \<times> 'a list) list" where
  "dict_append key x d = map (\<lambda>(k, v). if k = key then (k, v @ [x]) else (k, v)) d"

definition classify :: "(string \<times> StructInfo list) list \<Rightarrow> StructInfo \<Rightarrow> (string \<times> StructInfo list) list"
where
  "classify categories struct =
     (if py_in ''account'' (join '' '' (s_attributes struct))
      then dict_append ''Account Structures'' struct categories
      else if py_in ''config'' (lower (s_name struct))
      then dict_append ''Configuration Structures'' struct categories
      else if list_ex (\<lambda>keyword. py_in keyword (lower (s_name struct)))
                [''data'', ''info'', ''cap'', ''snapshot'']
      then dict_append ''Data Structures'' struct categories
      else dict_append ''Other Structures'' struct categories)"

definition api_structures_content :: "StructInfo list \<Rightarrow> string list" where
  "api_structures_content ss =
     foldl (\<lambda>content (category, members).
              if members \<noteq> []
              then foldl (\<lambda>content struct. content @ generate_struct_section struct)
                         (content @ [''## '' @ category @ [newline]]) members
              else content)
       [''# API Structures Reference'' @ [newline],
        ''Comprehensive reference for all data structures used in the protocol.'' @ [newline]]
       (foldl classify categories_init ss)"

definition generate_api_structures :: "extractor \<Rightarrow> files \<Rightarrow> files" where
  "generate_api_structures ex fs =
     write_file ''api-structures.md'' (api_structures_content (structs ex)) fs"

subsection \<open>\<open>generate_function_reference\<close>\<close>

text \<open>The body of the loop that fills the dictionary \<open>by_file\<close>; a new key goes to the
  end, as in a Python dictionary.\<close>

definition by_file_add ::
  "(string \<times> FunctionInfo list) list \<Rightarrow> FunctionInfo \<Rightarrow> (string \<times> FunctionInfo list) list"
where
  "by_file_add by_file func =
     (let file_key = f_file_path func;
          by_file = (if file_key \<notin> set (map fst by_file) then by_file @ [(file_key, [])]
                     else by_file)
      in dict_append file_key func by_file)"

text \<open>
  \<open>sorted(by_file.items())\<close> compares pairs of a path and a list; the paths of a
  dictionary differ from each other, so the comparison is decided by the path.
\<close>

definition function_reference_content :: "FunctionInfo list \<Rightarrow> string list" where
  "function_reference_content fns =
     (let public_functions = filter f_is_public fns;
          by_file = foldl by_file_add [] public_functions
      in foldl (\<lambda>content (file_path, members).
                  foldl (\<lambda>content func. content @ generate_function_section func)
                        (content @ [''## '' @ file_path @ [newline]]) members)
           [''# Function Reference'' @ [newline],
            ''Reference documentation for all public functions in the protocol.'' @ [newline],
            ''Total public functions: **'' @ str_nat (length public_functions) @ ''**'' @
              [newline]]
           (sort_key fst by_file))"

definition generate_function_reference :: "extractor \<Rightarrow> files \<Rightarrow> files" where
  "generate_function_reference ex fs =
     write_file ''function-reference.md'' (function_reference_content (functions ex)) fs"

subsection \<open>\<open>generate_index\<close>\<close>

text \<open>\<open>timestamp\<close> is what \<open>_get_timestamp()\<close> returns, read from the clock.\<close>

definition index_content :: "string \<Rightarrow> extractor \<Rightarrow> string list" where
  "index_content timestamp ex =
     [''# Auto-Generated Documentation Index'' @ [newline],
      ''This index is automatically generated from the Rust source code.'' @ [newline],
      ''Last updated: '' @ timestamp @ [newline],
      ''## Statistics'' @ [newline],
      ''- **Structures documented**: '' @ str_nat (length (structs ex)) @ [newline],
      ''- **Functions documented**: '' @ str_nat (length (functions ex)) @ [newline],
      ''- **Zero-copy structures**: '' @
        str_nat (length (filter (\<lambda>s. py_in ''account(zero_copy)'' (join '' '' (s_attributes s)))
                                (structs ex))) @ [newline],
      ''## Generated Files'' @ [newline],
      ''- [Zero-Copy Structures Reference](zero-copy-reference.md)'' @ [newline],
      ''- [API Structures Reference](api-structures.md)'' @ [newline],
      ''- [Function Reference](function-reference.md)'' @ [newline],
      ''## Manual Documentation'' @ [newline],
      ''- [Zero-Copy Architecture Guide](zero-copy-architecture.md)'' @ [newline],
      ''- [Performance Optimization Guide](performance-optimization.md)'' @ [newline],
      ''- [API Reference](api-reference.md)'' @ [newline],
      ''- [User Tutorials](user-tutorials.md)'' @ [newline],
      ''- [Developer Guide](developer-guide.md)'' @ [newline]]"

definition generate_index :: "string \<Rightarrow> extractor \<Rightarrow> files \<Rightarrow> files" where
  "generate_index timestamp ex fs =
     write_file ''auto-generated-index.md'' (index_content timestamp ex) fs"


section \<open>The structures reference as the specification words it\<close>

text \<open>
  The classification rules, first match wins: Account if the attributes contain the
  account marker, Configuration if the lower-cased name contains \<open>config\<close>, Data if it
  contains one of \<open>data\<close>, \<open>info\<close>, \<open>cap\<close>, \<open>snapshot\<close>, Other otherwise.
\<close>

definition spec_category :: "StructInfo \<Rightarrow> string" where
  "spec_category s =
     (if py_in ''account'' (join '' '' (s_attributes s)) then ''Account Structures''
      else if py_in ''config'' (lower (s_name s)) then ''Configuration Structures''
      else if (\<exists>keyword \<in> set [''data'', ''info'', ''cap'', ''snapshot'']. py_in keyword (lower (s_name s)))
      then ''Data Structures''
      else ''Other Structures'')"

text \<open>One heading for a category that has members, followed by the members' sections in
  the order of the collection; nothing for a category without members.\<close>

definition category_section :: "StructInfo list \<Rightarrow> string \<Rightarrow> string list" where
  "category_section ss category =
     (let members = filter (\<lambda>s. spec_category s = category) ss
      in if members = [] then []
         else (''## '' @ category @ [newline]) # concat (map generate_struct_section members))"

text \<open>The reference with its categories rendered in a given order.\<close>

definition structures_reference_in_order :: "string list \<Rightarrow> StructInfo list \<Rightarrow> string list" where
  "structures_reference_in_order order ss =
     [''# API Structures Reference'' @ [newline],
      ''Comprehensive reference for all data structures used in the protocol.'' @ [newline]] @
     concat (map (category_section ss) order)"

section \<open>Notions used in the proofs\<close>

text \<open>The groups that every match of a pattern sets, and the bodies of the groups of a
  given name.\<close>

fun sets_groups :: "regex \<Rightarrow> string set" where
  "sets_groups Eps = {}"
| "sets_groups (Atom a) = {}"
| "sets_groups (Seq r1 r2) = sets_groups r1 \<union> sets_groups r2"
| "sets_groups (Alt r1 r2) = sets_groups r1 \<inter> sets_groups r2"
| "sets_groups (Star r) = {}"
| "sets_groups (LazyStar r) = {}"
| "sets_groups (Group n r) = insert n (sets_groups r)"

fun group_bodies :: "string \<Rightarrow> regex \<Rightarrow> regex list" where
  "group_bodies n Eps = []"
| "group_bodies n (Atom a) = []"
| "group_bodies n (Seq r1 r2) = group_bodies n r1 @ group_bodies n r2"
| "group_bodies n (Alt r1 r2) = group_bodies n r1 @ group_bodies n r2"
| "group_bodies n (Star r) = group_bodies n r"
| "group_bodies n (LazyStar r) = group_bodies n r"
| "group_bodies n (Group m r) = (if m = n then [r] else []) @ group_bodies n r"

text \<open>The text consumed between two matcher states; a group body all of whose matches
  consume a text with property \<open>Q\<close>; a capture that, where set, has property \<open>Q\<close>.\<close>

definition matched_text :: "mstate \<Rightarrow> mstate \<Rightarrow> string" where
  "matched_text st st' = take (length (fst st) - length (fst st')) (fst st)"

definition body_ok :: "(string \<Rightarrow> bool) \<Rightarrow> regex \<Rightarrow> bool" where
  "body_ok Q b = (\<forall>st st'. st' \<in> set (matches b st) \<longrightarrow> Q (matched_text st st'))"

definition cap_ok :: "(string \<Rightarrow> bool) \<Rightarrow> string \<Rightarrow> caps \<Rightarrow> bool" where
  "cap_ok Q n c = (case c n of None \<Rightarrow> True | Some w \<Rightarrow> Q w)"

text \<open>A field with a name and a type free of commas and newlines; a struct with a name
  whose fields are all such.\<close>

definition field_ok :: "string \<times> string \<times> string \<Rightarrow> bool" where
  "field_ok f = (fst f \<noteq> [] \<and> CHR '','' \<notin> set (fst (snd f)) \<and> newline \<notin> set (fst (snd f)))"

definition struct_ok :: "StructInfo \<Rightarrow> bool" where
  "struct_ok s = (s_name s \<noteq> [] \<and> (\<forall>f \<in> set (s_fields s). field_ok f))"

text \<open>The length of the lines of a text, counting one separator per line.\<close>

definition weight :: "string list \<Rightarrow> nat" where
  "weight ls = sum_list (map length ls) + length ls"

text \<open>The dictionary \<open>by_file\<close> after the loop has seen the functions \<open>ps\<close>: one
  key per path, each holding the functions of that path in the order of \<open>ps\<close>.\<close>

definition by_file_inv :: "FunctionInfo list \<Rightarrow> (string \<times> FunctionInfo list) list \<Rightarrow> bool" where
  "by_file_inv ps d = (distinct (map fst d) \<and> set (map fst d) = f_file_path ` set ps \<and>
      (\<forall>(k, v) \<in> set d. v = filter (\<lambda>f. f_file_path f = k) ps))"

declare matches.simps(5,6) [simp del]
declare finditer_from.simps [simp del]
declare str_nat.simps [simp del]

section \<open>Properties of the matcher\<close>



lemma in_matches_Seq:
  "st' \<in> set (matches (Seq r1 r2) st) \<longleftrightarrow> (\<exists>mid \<in> set (matches r1 st). st' \<in> set (matches r2 mid))"
  by auto

lemma in_matches_Star:
  "st' \<in> set (matches (Star r) st) \<longleftrightarrow>
     st' = st \<or> (\<exists>mid \<in> set (matches r st). length (fst mid) < length (fst st) \<and>
                   st' \<in> set (matches (Star r) mid))"
  by (subst matches.simps(5)) (auto split: if_splits)

lemma in_matches_LazyStar:
  "st' \<in> set (matches (LazyStar r) st) \<longleftrightarrow>
     st' = st \<or> (\<exists>mid \<in> set (matches r st). length (fst mid) < length (fst st) \<and>
                   st' \<in> set (matches (LazyStar r) mid))"
  by (subst matches.simps(6)) (auto split: if_splits)

lemma in_matches_Atom:
  "st' \<in> set (matches (Atom a) st) \<longleftrightarrow> (\<exists>x. fst st = x # fst st' \<and> atom_ok a x \<and> snd st' = snd st)"
  by (cases st'; cases "fst st") auto

lemma in_matches_Group:
  "st' \<in> set (matches (Group n r) st) \<longleftrightarrow>
     (\<exists>mid \<in> set (matches r st). fst st' = fst mid \<and>
        snd st' = (snd mid)(n \<mapsto> take (length (fst st) - length (fst mid)) (fst st)))"
  by (cases st') auto


lemma matches_suffix:
  "st' \<in> set (matches r st) \<Longrightarrow> \<exists>w. fst st = w @ fst st'"
proof (induction r st arbitrary: st' rule: matches.induct)
  case (2 a st)
  then show ?case unfolding in_matches_Atom by (metis append_Cons append_Nil)
next
  case (3 r1 r2 st)
  then show ?case unfolding in_matches_Seq by (metis append.assoc)
next
  case (5 r st)
  from "5.prems" show ?case unfolding in_matches_Star [of st' r st]
    using "5.IH" by (metis append.assoc append_Nil)
next
  case (6 r st)
  from "6.prems" show ?case unfolding in_matches_LazyStar [of st' r st]
    using "6.IH" by (metis append.assoc append_Nil)
next
  case (7 n r st)
  then show ?case unfolding in_matches_Group by metis
qed auto

lemma matches_length: "st' \<in> set (matches r st) \<Longrightarrow> length (fst st') \<le> length (fst st)"
  using matches_suffix [of st' r st] by auto

lemma matches_keeps_groups:
  "st' \<in> set (matches r st) \<Longrightarrow> snd st n \<noteq> None \<Longrightarrow> snd st' n \<noteq> None"
proof (induction r st arbitrary: st' rule: matches.induct)
  case (2 a st)
  then show ?case unfolding in_matches_Atom by auto
next
  case (3 r1 r2 st)
  then show ?case unfolding in_matches_Seq by blast
next
  case (5 r st)
  from "5.prems" show ?case unfolding in_matches_Star [of st' r st]
    using "5.IH" by blast
next
  case (6 r st)
  from "6.prems" show ?case unfolding in_matches_LazyStar [of st' r st]
    using "6.IH" by blast
next
  case (7 n r st)
  then show ?case unfolding in_matches_Group by auto
qed auto

lemma matches_sets_groups:
  "st' \<in> set (matches r st) \<Longrightarrow> n \<in> sets_groups r \<Longrightarrow> snd st' n \<noteq> None"
proof (induction r arbitrary: st st')
  case (Seq r1 r2)
  from Seq.prems(1) obtain mid where m: "mid \<in> set (matches r1 st)" "st' \<in> set (matches r2 mid)"
    unfolding in_matches_Seq by blast
  show ?case
  proof (cases "n \<in> sets_groups r2")
    case True
    then show ?thesis using Seq.IH(2) m by blast
  next
    case False
    with Seq.prems(2) have "n \<in> sets_groups r1" by simp
    then have "snd mid n \<noteq> None" using Seq.IH(1) m by blast
    then show ?thesis using matches_keeps_groups m(2) by blast
  qed
next
  case (Alt r1 r2)
  then show ?case by (cases st; cases st') auto
next
  case (Group m r)
  then show ?case unfolding in_matches_Group by (cases st) auto
qed auto


lemma matches_cap_ok:
  "st' \<in> set (matches r st) \<Longrightarrow> \<forall>b \<in> set (group_bodies n r). body_ok Q b \<Longrightarrow>
   cap_ok Q n (snd st) \<Longrightarrow> cap_ok Q n (snd st')"
proof (induction r st arbitrary: st' rule: matches.induct)
  case (2 a st)
  then show ?case unfolding in_matches_Atom by auto
next
  case (3 r1 r2 st)
  from "3.prems"(1) obtain mid where m: "mid \<in> set (matches r1 st)" "st' \<in> set (matches r2 mid)"
    unfolding in_matches_Seq by blast
  have "cap_ok Q n (snd mid)" using "3.IH"(1)[OF m(1)] "3.prems" by simp
  then show ?case using "3.IH"(2)[OF m(1) m(2)] "3.prems" by simp
next
  case (4 r1 r2 st)
  then show ?case by (cases st; cases st') auto
next
  case (5 r st)
  from "5.prems"(1) consider "st' = st"
    | mid where "mid \<in> set (matches r st)" "length (fst mid) < length (fst st)"
        "st' \<in> set (matches (Star r) mid)"
    unfolding in_matches_Star [of st' r st] by blast
  then show ?case
  proof cases
    case 1
    then show ?thesis using "5.prems"(3) by simp
  next
    case 2
    have "cap_ok Q n (snd mid)" using "5.IH"(1)[OF 2(1)] "5.prems"(2,3) by simp
    then show ?thesis using "5.IH"(2)[OF 2(1) 2(2) 2(3)] "5.prems"(2) by simp
  qed
next
  case (6 r st)
  from "6.prems"(1) consider "st' = st"
    | mid where "mid \<in> set (matches r st)" "length (fst mid) < length (fst st)"
        "st' \<in> set (matches (LazyStar r) mid)"
    unfolding in_matches_LazyStar [of st' r st] by blast
  then show ?case
  proof cases
    case 1
    then show ?thesis using "6.prems"(3) by simp
  next
    case 2
    have "cap_ok Q n (snd mid)" using "6.IH"(1)[OF 2(1)] "6.prems"(2,3) by simp
    then show ?thesis using "6.IH"(2)[OF 2(1) 2(2) 2(3)] "6.prems"(2) by simp
  qed
next
  case (7 m r st)
  from "7.prems"(1) obtain mid where mid: "mid \<in> set (matches r st)" "fst st' = fst mid"
     "snd st' = (snd mid)(m \<mapsto> take (length (fst st) - length (fst mid)) (fst st))"
    unfolding in_matches_Group by blast
  have ih: "cap_ok Q n (snd mid)" using "7.IH"[OF mid(1)] "7.prems" by simp
  show ?case
  proof (cases "m = n")
    case True
    with "7.prems"(2) have "body_ok Q r" by simp
    with mid(1) have "Q (matched_text st mid)" unfolding body_ok_def by blast
    then show ?thesis using mid(3) True by (simp add: cap_ok_def matched_text_def)
  next
    case False
    then show ?thesis using ih mid(3) by (simp add: cap_ok_def)
  qed
qed auto

lemma star_atom_text:
  "st' \<in> set (matches (Star (Atom a)) st) \<Longrightarrow> \<forall>x \<in> set (matched_text st st'). atom_ok a x"
proof (induction "length (fst st)" arbitrary: st rule: less_induct)
  case less
  from less.prems consider "st' = st"
    | mid where "mid \<in> set (matches (Atom a) st)" "length (fst mid) < length (fst st)"
        "st' \<in> set (matches (Star (Atom a)) mid)"
    unfolding in_matches_Star [of st' "Atom a" st] by blast
  then show ?case
  proof cases
    case 1
    then show ?thesis by (simp add: matched_text_def)
  next
    case 2
    from 2(1) obtain x where x: "fst st = x # fst mid" "atom_ok a x"
      unfolding in_matches_Atom by blast
    from less.hyps[OF 2(2) 2(3)] have ih: "\<forall>x \<in> set (matched_text mid st'). atom_ok a x" .
    from matches_suffix[OF 2(3)] obtain w where w: "fst mid = w @ fst st'" by blast
    have "matched_text st st' = x # matched_text mid st'"
      using x w by (simp add: matched_text_def)
    then show ?thesis using ih x by simp
  qed
qed

lemma plus_atom_text:
  assumes "st' \<in> set (matches (Plus (Atom a)) st)"
  shows "matched_text st st' \<noteq> [] \<and> (\<forall>x \<in> set (matched_text st st'). atom_ok a x)"
proof -
  from assms obtain mid where m: "mid \<in> set (matches (Atom a) st)"
      "st' \<in> set (matches (Star (Atom a)) mid)"
    unfolding Plus_def in_matches_Seq by blast
  from m(1) obtain x where x: "fst st = x # fst mid" "atom_ok a x"
    unfolding in_matches_Atom by blast
  from matches_suffix[OF m(2)] obtain w where w: "fst mid = w @ fst st'" by blast
  have "matched_text st st' = x # matched_text mid st'"
    using x w by (simp add: matched_text_def)
  then show ?thesis using star_atom_text[OF m(2)] x by simp
qed

lemma finditer_from_group:
  "m \<in> set (finditer_from r content pos) \<Longrightarrow>
   \<exists>p st'. st' \<in> set (matches r (drop p content, Map.empty)) \<and> m_group m = snd st'"
proof (induction r content pos rule: finditer_from.induct)
  case (1 r content pos)
  show ?case
  proof (cases "length content < pos")
    case True
    with "1.prems" show ?thesis by (subst (asm) finditer_from.simps) simp
  next
    case False
    show ?thesis
    proof (cases "matches r (drop pos content, Map.empty)")
      case Nil
      with False "1.prems" have "m \<in> set (finditer_from r content (Suc pos))"
        by (subst (asm) finditer_from.simps) simp
      with "1.IH"(1)[OF False Nil] show ?thesis .
    next
      case (Cons st rest)
      define e where "e = length content - length (fst st)"
      from False Cons "1.prems" consider "m = \<lparr>m_start = pos, m_end = e, m_group = snd st\<rparr>"
        | "pos < e" "m \<in> set (finditer_from r content e)"
        | "\<not> pos < e" "m \<in> set (finditer_from r content (Suc pos))"
        by (subst (asm) finditer_from.simps) (auto simp: e_def Let_def split: if_splits)
      then show ?thesis
      proof cases
        case 1
        then show ?thesis using Cons by (metis list.set_intros(1) rmatch.select_convs(3))
      next
        case 2
        then show ?thesis using "1.IH"(2)[OF False Cons e_def] by blast
      next
        case 3
        then show ?thesis using "1.IH"(3)[OF False Cons] e_def by blast
      qed
    qed
  qed
qed


section \<open>Properties of the extraction\<close>


lemma finditer_group:
  "m \<in> set (finditer r content) \<Longrightarrow>
   \<exists>p st'. st' \<in> set (matches r (drop p content, Map.empty)) \<and> m_group m = snd st'"
  unfolding finditer_def by (rule finditer_from_group)

lemma finditer_sets_groups:
  assumes "m \<in> set (finditer r content)" "n \<in> sets_groups r"
  shows "m_group m n \<noteq> None"
  using finditer_group[OF assms(1)] matches_sets_groups[OF _ assms(2)] by metis

lemma finditer_cap_ok:
  assumes "m \<in> set (finditer r content)" "\<forall>b \<in> set (group_bodies n r). body_ok Q b"
  shows "cap_ok Q n (m_group m)"
proof -
  from finditer_group[OF assms(1)] obtain p st' where
    st: "st' \<in> set (matches r (drop p content, Map.empty))" "m_group m = snd st'" by blast
  have "cap_ok Q n (snd (drop p content, Map.empty :: caps))" by (simp add: cap_ok_def)
  from matches_cap_ok[OF st(1) assms(2) this] st(2) show ?thesis by simp
qed

lemma body_ok_plus_atom:
  "body_ok (\<lambda>w. w \<noteq> [] \<and> (\<forall>x \<in> set w. atom_ok a x)) (Plus (Atom a))"
  unfolding body_ok_def using plus_atom_text by blast

lemma finditer_plus_group:
  assumes "m \<in> set (finditer r content)" "n \<in> sets_groups r"
    "group_bodies n r = [Plus (Atom a)]"
  shows "\<exists>w. m_group m n = Some w \<and> w \<noteq> [] \<and> (\<forall>x \<in> set w. atom_ok a x)"
proof -
  from finditer_sets_groups[OF assms(1,2)] obtain w where w: "m_group m n = Some w" by blast
  have "cap_ok (\<lambda>w. w \<noteq> [] \<and> (\<forall>x \<in> set w. atom_ok a x)) n (m_group m)"
    using finditer_cap_ok[OF assms(1)] assms(3) body_ok_plus_atom by simp
  with w show ?thesis by (simp add: cap_ok_def)
qed

lemma sets_groups_lits [simp]: "sets_groups (lits s) = {}"
  by (induction s) auto

lemma group_bodies_lits [simp]: "group_bodies n (lits s) = []"
  by (induction s) auto

lemma field_pattern_groups:
  "''name'' \<in> sets_groups field_pattern" "''type'' \<in> sets_groups field_pattern"
  "group_bodies ''name'' field_pattern = [Plus (Atom Word)]"
  "group_bodies ''type'' field_pattern = [Plus (Atom (NoneOf ('','' @ [newline])))]"
  by (simp_all add: field_pattern_def doc_group_def Plus_def Opt_def)

lemma struct_pattern_groups:
  "''name'' \<in> sets_groups struct_pattern" "''attrs'' \<in> sets_groups struct_pattern"
  "''fields'' \<in> sets_groups struct_pattern"
  "group_bodies ''name'' struct_pattern = [Plus (Atom Word)]"
  by (simp_all add: struct_pattern_def doc_group_def generics_def Plus_def Opt_def)

lemma func_pattern_groups:
  "''name'' \<in> sets_groups func_pattern"
  "group_bodies ''name'' func_pattern = [Plus (Atom Word)]"
  by (simp_all add: func_pattern_def doc_group_def generics_def Plus_def Opt_def)

lemma impl_pattern_groups: "''1'' \<in> sets_groups (impl_pattern nm)"
  by (simp add: impl_pattern_def Plus_def Opt_def)

lemma set_strip: "set (strip s) \<subseteq> set s"
  unfolding strip_def rstrip_def lstrip_def
  by (metis set_dropWhileD set_rev subsetI)

lemma set_rstrip_chars: "set (rstrip_chars cs s) \<subseteq> set s"
  unfolding rstrip_chars_def by (metis set_dropWhileD set_rev subsetI)

lemma field_of_match_ok:
  assumes "m \<in> set (finditer field_pattern t)"
  shows "\<exists>f. field_of_match m = Inr f \<and> field_ok f"
proof -
  from finditer_plus_group[OF assms field_pattern_groups(1,3)]
  obtain nm where nm: "m_group m ''name'' = Some nm" "nm \<noteq> []" by blast
  from finditer_plus_group[OF assms field_pattern_groups(2,4)]
  obtain ty where ty: "m_group m ''type'' = Some ty"
    "\<forall>x \<in> set ty. atom_ok (NoneOf ('','' @ [newline])) x" by blast
  have "set (rstrip_chars '','' (strip ty)) \<subseteq> set ty"
    using set_strip set_rstrip_chars by blast
  with ty(2) have "CHR '','' \<notin> set (rstrip_chars '','' (strip ty))"
    "newline \<notin> set (rstrip_chars '','' (strip ty))" by auto
  then show ?thesis using nm ty(1) by (simp add: field_of_match_def field_ok_def)
qed

lemma fields_loop_ok:
  "\<forall>m \<in> set ms. \<exists>f. field_of_match m = Inr f \<and> field_ok f \<Longrightarrow> \<forall>f \<in> set acc. field_ok f \<Longrightarrow>
   \<exists>fl. fields_loop ms acc = Inr fl \<and> (\<forall>f \<in> set fl. field_ok f)"
proof (induction ms arbitrary: acc)
  case Nil
  then show ?case by simp
next
  case (Cons m ms)
  from Cons.prems(1) obtain f where f: "field_of_match m = Inr f" "field_ok f" by auto
  have "\<forall>g \<in> set (acc @ [f]). field_ok g" using Cons.prems(2) f(2) by simp
  from Cons.IH[OF _ this] Cons.prems(1) f(1) show ?case by simp
qed

lemma extract_fields_ok:
  "\<exists>fl. extract_fields (Some t) = Inr fl \<and> (\<forall>f \<in> set fl. field_ok f)"
  unfolding extract_fields_def using fields_loop_ok[of "finditer field_pattern t" "[]"]
    field_of_match_ok by simp

lemma find_size_calculation_ok: "\<exists>r. find_size_calculation content nm = Inr r"
proof (cases "search (impl_pattern nm) content")
  case None
  then show ?thesis by (simp add: find_size_calculation_def)
next
  case (Some m)
  then have "m \<in> set (finditer (impl_pattern nm) content)"
    by (auto simp: search_def split: list.splits)
  from finditer_sets_groups[OF this impl_pattern_groups] Some show ?thesis
    by (auto simp: find_size_calculation_def)
qed

lemma struct_of_match_ok:
  assumes "m \<in> set (finditer struct_pattern content)"
  shows "\<exists>s. struct_of_match content path m = Inr s \<and> struct_ok s"
proof -
  from finditer_plus_group[OF assms struct_pattern_groups(1,4)]
  obtain nm where nm: "m_group m ''name'' = Some nm" "nm \<noteq> []" by blast
  from finditer_sets_groups[OF assms struct_pattern_groups(2)]
  obtain at where at: "m_group m ''attrs'' = Some at" by blast
  from finditer_sets_groups[OF assms struct_pattern_groups(3)]
  obtain ft where ft: "m_group m ''fields'' = Some ft" by blast
  from extract_fields_ok[of ft] obtain fl where
    fl: "extract_fields (Some ft) = Inr fl" "\<forall>f \<in> set fl. field_ok f" by blast
  from find_size_calculation_ok[of content nm] obtain sc where
    sc: "find_size_calculation content nm = Inr sc" by blast
  show ?thesis using nm at ft fl sc by (simp add: struct_of_match_def struct_ok_def)
qed

lemma structs_loop_ok:
  "\<forall>m \<in> set ms. \<exists>s. struct_of_match content path m = Inr s \<and> struct_ok s \<Longrightarrow>
   \<exists>new. structs_loop content path ms ex = Inr (ex\<lparr>structs := structs ex @ new\<rparr>) \<and>
         length new = length ms \<and> (\<forall>s \<in> set new. struct_ok s)"
proof (induction ms arbitrary: ex)
  case Nil
  then show ?case by simp
next
  case (Cons m ms)
  from Cons.prems obtain s where s: "struct_of_match content path m = Inr s" "struct_ok s" by auto
  from Cons.IH[of "ex\<lparr>structs := structs ex @ [s]\<rparr>"] Cons.prems
  obtain new where new: "structs_loop content path ms (ex\<lparr>structs := structs ex @ [s]\<rparr>) =
      Inr (ex\<lparr>structs := (structs ex @ [s]) @ new\<rparr>)" "length new = length ms"
      "\<forall>s \<in> set new. struct_ok s" by auto
  show ?case
    by (rule exI[of _ "s # new"]) (use s new in simp)
qed

lemma function_of_match_ok:
  assumes "m \<in> set (finditer func_pattern content)"
  shows "\<exists>f. function_of_match content path m = Inr f \<and> f_name f \<noteq> []"
proof -
  from finditer_plus_group[OF assms func_pattern_groups]
  obtain nm where nm: "m_group m ''name'' = Some nm" "nm \<noteq> []" by blast
  then show ?thesis by (simp add: function_of_match_def Let_def)
qed

lemma functions_loop_ok:
  "\<forall>m \<in> set ms. \<exists>f. function_of_match content path m = Inr f \<and> f_name f \<noteq> [] \<Longrightarrow>
   \<exists>new. functions_loop content path ms ex = Inr (ex\<lparr>functions := functions ex @ new\<rparr>) \<and>
         length new = length ms \<and> (\<forall>f \<in> set new. f_name f \<noteq> [])"
proof (induction ms arbitrary: ex)
  case Nil
  then show ?case by simp
next
  case (Cons m ms)
  from Cons.prems obtain f where f: "function_of_match content path m = Inr f" "f_name f \<noteq> []"
    by auto
  from Cons.IH[of "ex\<lparr>functions := functions ex @ [f]\<rparr>"] Cons.prems
  obtain new where new: "functions_loop content path ms (ex\<lparr>functions := functions ex @ [f]\<rparr>) =
      Inr (ex\<lparr>functions := (functions ex @ [f]) @ new\<rparr>)" "length new = length ms"
      "\<forall>f \<in> set new. f_name f \<noteq> []" by auto
  show ?case
    by (rule exI[of _ "f # new"]) (use f new in simp)
qed

lemma extract_structs_ok:
  "\<exists>new. extract_structs ex content path = Inr (ex\<lparr>structs := structs ex @ new\<rparr>) \<and>
         length new = length (finditer struct_pattern content) \<and> (\<forall>s \<in> set new. struct_ok s)"
  unfolding extract_structs_def using structs_loop_ok struct_of_match_ok by blast

lemma extract_functions_ok:
  "\<exists>new. extract_functions ex content path = Inr (ex\<lparr>functions := functions ex @ new\<rparr>) \<and>
         length new = length (finditer func_pattern content) \<and> (\<forall>f \<in> set new. f_name f \<noteq> [])"
  unfolding extract_functions_def using functions_loop_ok function_of_match_ok by blast


section \<open>Properties of doc-comment cleaning\<close>


lemma foldl_extend: "foldl (\<lambda>content x. content @ f x) init xs = init @ concat (map f xs)"
  by (induction xs arbitrary: init) auto

lemma length_strip_le: "length (strip s) \<le> length s"
  unfolding strip_def rstrip_def lstrip_def
  by (metis length_dropWhile_le length_rev le_trans)

lemma length_join: "ls \<noteq> [] \<Longrightarrow> Suc (length (join [c] ls)) = weight ls"
  by (induction "[c]" ls rule: join.induct) (auto simp: weight_def)

lemma split_on_nonempty: "split_on c s \<noteq> []"
  by (induction s) (auto split: list.splits)

lemma weight_split_on: "weight (split_on c s) = Suc (length s)"
  by (induction s) (auto simp: weight_def split: list.splits)

lemma clean_lines_weight:
  "weight (clean_lines ls acc) + 3 * length (clean_lines ls acc) \<le> weight ls + weight acc + 3 * length acc"
proof (induction ls arbitrary: acc)
  case Nil
  then show ?case by (simp add: weight_def)
next
  case (Cons l ls)
  have a: "length (strip (drop 3 (strip l))) \<le> length l - 3"
    using length_strip_le[of "drop 3 (strip l)"] length_strip_le[of l] by simp
  have s3: "startswith p (strip l) \<Longrightarrow> length p = 3 \<Longrightarrow> 3 \<le> length l" for p
    using length_strip_le[of l] unfolding startswith_def
    by (metis le_trans length_take min.cobounded1 min_def nat_le_linear)
  show ?case
  proof (cases "startswith ''///'' (strip l) \<or> startswith ''//!'' (strip l)")
    case True
    then have l3: "3 \<le> length l" using s3 by auto
    have eq: "clean_lines (l # ls) acc = clean_lines ls (acc @ [strip (drop 3 (strip l))])"
      using True by (auto simp: Let_def)
    have "weight (acc @ [strip (drop 3 (strip l))]) + 3 * length (acc @ [strip (drop 3 (strip l))])
        \<le> weight acc + 3 * length acc + length l + 1"
      using a l3 by (simp add: weight_def)
    with Cons.IH[of "acc @ [strip (drop 3 (strip l))]"] show ?thesis
      unfolding eq by (simp add: weight_def)
  next
    case False
    then have eq: "clean_lines (l # ls) acc = clean_lines ls acc" by (simp add: Let_def)
    from Cons.IH[of acc] show ?thesis unfolding eq by (simp add: weight_def)
  qed
qed

lemma clean_shortens:
  assumes "d \<noteq> []"
  shows "length (clean_doc_comment (Some d)) < length d"
proof -
  let ?ls = "split_on newline (strip d)"
  let ?cl = "clean_lines ?ls []"
  have w: "weight ?cl + 3 * length ?cl \<le> Suc (length (strip d))"
  proof -
    have "weight ([] :: string list) = 0" by (simp add: weight_def)
    then show ?thesis using clean_lines_weight[of ?ls "[]"] by (simp add: weight_split_on)
  qed
  have c: "clean_doc_comment (Some d) = join [newline] ?cl"
    using assms by (simp add: clean_doc_comment_def)
  show ?thesis
  proof (cases "?cl = []")
    case True
    then show ?thesis using c assms by simp
  next
    case False
    then have "length ?cl \<ge> 1" by (cases ?cl) auto
    with w length_join[OF False, of newline] have "length (join [newline] ?cl) < length (strip d)"
      by linarith
    then show ?thesis using c length_strip_le[of d] by simp
  qed
qed

lemma clean_fixed_point: "clean_doc_comment (Some t) = t \<longleftrightarrow> t = []"
  using clean_shortens[of t] by (auto simp: clean_doc_comment_def)


section \<open>Properties of the generation\<close>


lemma classify_category: "classify cats s = dict_append (spec_category s) s cats"
  by (simp add: classify_def spec_category_def list_ex_iff)

lemma foldl_classify:
  "foldl classify cats ss = map (\<lambda>(k, v). (k, v @ filter (\<lambda>s. spec_category s = k) ss)) cats"
proof (induction ss arbitrary: cats)
  case Nil
  then show ?case by simp
next
  case (Cons s ss)
  have "foldl classify cats (s # ss) = foldl classify (classify cats s) ss" by simp
  also have "\<dots> = map (\<lambda>(k, v). (k, v @ filter (\<lambda>s. spec_category s = k) ss)) (classify cats s)"
    by (rule Cons.IH)
  also have "\<dots> = map (\<lambda>(k, v). (k, v @ filter (\<lambda>s. spec_category s = k) (s # ss))) cats"
    by (auto simp: classify_category dict_append_def)
  finally show ?case .
qed

lemma dict_values_eq:
  "\<forall>(k, v) \<in> set g. v = F k \<Longrightarrow> g = map (\<lambda>k. (k, F k)) (map fst g)"
  by (induction g) auto

lemma render_categories:
  "foldl (\<lambda>content (category, members).
              if members \<noteq> []
              then foldl (\<lambda>content struct. content @ generate_struct_section struct)
                         (content @ [''## '' @ category @ [newline]]) members
              else content) init d =
   init @ concat (map (\<lambda>(category, members). if members = [] then []
       else (''## '' @ category @ [newline]) # concat (map generate_struct_section members)) d)"
  by (induction d arbitrary: init) (auto simp: foldl_extend)


lemma dict_append_keys: "map fst (dict_append k x d) = map fst d"
  by (induction d) (auto simp: dict_append_def)

lemma by_file_add_inv:
  assumes "by_file_inv ps d"
  shows "by_file_inv (ps @ [f]) (by_file_add d f)"
proof -
  let ?k = "f_file_path f"
  let ?d = "if ?k \<notin> set (map fst d) then d @ [(?k, [])] else d"
  have eq: "by_file_add d f = dict_append ?k f ?d" by (simp add: by_file_add_def Let_def)
  have keys: "map fst (by_file_add d f) = map fst ?d" unfolding eq by (rule dict_append_keys)
  have d1: "distinct (map fst ?d)" using assms by (auto simp: by_file_inv_def)
  have d2: "set (map fst ?d) = f_file_path ` set (ps @ [f])"
    using assms by (auto simp: by_file_inv_def)
  have a2: "set (map fst d) = f_file_path ` set ps" using assms by (simp add: by_file_inv_def)
  have new: "filter (\<lambda>g. f_file_path g = ?k) ps = []" if "?k \<notin> set (map fst d)"
  proof -
    from that a2 have "?k \<notin> f_file_path ` set ps" by simp
    then show ?thesis unfolding filter_empty_conv by (metis image_eqI)
  qed
  have d3: "\<forall>(k, v) \<in> set ?d. v = filter (\<lambda>g. f_file_path g = k) ps"
    using assms new by (auto simp: by_file_inv_def)
  have "\<forall>(k, v) \<in> set (dict_append ?k f ?d). v = filter (\<lambda>g. f_file_path g = k) (ps @ [f])"
    using d3 unfolding dict_append_def by (auto split: if_splits)
  then show ?thesis using d1 d2 keys unfolding by_file_inv_def eq by metis
qed

lemma foldl_by_file_inv: "by_file_inv ps (foldl by_file_add [] ps)"
proof (induction ps rule: rev_induct)
  case Nil
  then show ?case by (simp add: by_file_inv_def)
next
  case (snoc f ps)
  then show ?case using by_file_add_inv by simp
qed

lemma sorted_groups:
  assumes "by_file_inv ps d"
  shows "sort_key fst d =
     map (\<lambda>k. (k, filter (\<lambda>f. f_file_path f = k) ps)) (sorted_list_of_set (f_file_path ` set ps))"
proof -
  let ?g = "sort_key fst d"
  have s: "sorted (map fst ?g)" by (rule sorted_sort_key)
  have "mset (map fst ?g) = mset (map fst d)" by simp
  then have dist: "distinct (map fst ?g)" using assms
    by (metis by_file_inv_def mset_eq_imp_distinct_iff)
  have st: "set (map fst ?g) = f_file_path ` set ps" using assms by (simp add: by_file_inv_def)
  have keys: "map fst ?g = sorted_list_of_set (f_file_path ` set ps)"
    using s dist st by (metis sorted_list_of_set.idem_if_sorted_distinct)
  have "\<forall>(k, v) \<in> set ?g. v = filter (\<lambda>f. f_file_path f = k) ps"
    using assms by (simp add: by_file_inv_def)
  then have "?g = map (\<lambda>k. (k, filter (\<lambda>f. f_file_path f = k) ps)) (map fst ?g)"
    by (rule dict_values_eq)
  then show ?thesis using keys by simp
qed

lemma render_groups:
  "foldl (\<lambda>content (file_path, members).
                  foldl (\<lambda>content func. content @ generate_function_section func)
                        (content @ [''## '' @ file_path @ [newline]]) members) init d =
   init @ concat (map (\<lambda>(file_path, members). (''## '' @ file_path @ [newline]) #
       concat (map generate_function_section members)) d)"
  by (induction d arbitrary: init) (auto simp: foldl_extend)

lemma dict_snd_eq:
  "\<forall>(k, v) \<in> set g. v = F k \<Longrightarrow> map snd g = map F (map fst g)"
  by (induction g) auto

lemma mset_concat_filters:
  "distinct ks \<Longrightarrow>
   mset (concat (map (\<lambda>k. filter (\<lambda>x. key x = k) xs) ks)) = mset (filter (\<lambda>x. key x \<in> set ks) xs)"
proof (induction ks)
  case Nil
  then show ?case by simp
next
  case (Cons k ks)
  have "mset (filter (\<lambda>x. key x \<in> set (k # ks)) xs) =
      mset (filter (\<lambda>x. key x = k) xs) + mset (filter (\<lambda>x. key x \<in> set ks) xs)"
    using Cons.prems by (induction xs) auto
  then show ?case using Cons by simp
qed

lemma groups_mset:
  assumes "by_file_inv ps d"
  shows "mset (concat (map snd d)) = mset ps"
proof -
  have 1: "map snd d = map (\<lambda>k. filter (\<lambda>f. f_file_path f = k) ps) (map fst d)"
    by (rule dict_snd_eq) (use assms in \<open>simp add: by_file_inv_def\<close>)
  have "distinct (map fst d)" "set (map fst d) = f_file_path ` set ps"
    using assms by (simp_all add: by_file_inv_def)
  then have 2: "mset (concat (map (\<lambda>k. filter (\<lambda>f. f_file_path f = k) ps) (map fst d))) =
     mset (filter (\<lambda>f. f_file_path f \<in> f_file_path ` set ps) ps)"
    using mset_concat_filters[of "map fst d" f_file_path ps] by metis
  have 3: "filter (\<lambda>f. f_file_path f \<in> f_file_path ` set ps) ps = ps"
    by (rule filter_True) simp
  show ?thesis unfolding 1 2 3 ..
qed

lemma by_file_inv_sort:
  assumes "by_file_inv ps d"
  shows "by_file_inv ps (sort_key fst d)"
proof -
  have "mset (map fst (sort_key fst d)) = mset (map fst d)" by simp
  then have "distinct (map fst (sort_key fst d))" using assms
    by (metis by_file_inv_def mset_eq_imp_distinct_iff)
  then show ?thesis using assms by (simp add: by_file_inv_def)
qed

section \<open>The patterns of the source consume text\<close>

text \<open>Every match of a pattern of the source consumes at least one character, and so
  does every iteration of a repetition inside one: the scan never meets an empty match,
  and no repetition is cut short.\<close>

lemma matches_consumes:
  "st' \<in> set (matches r st) \<Longrightarrow> consumes r \<Longrightarrow> length (fst st') < length (fst st)"
proof (induction r arbitrary: st st')
  case (Atom a)
  then show ?case unfolding in_matches_Atom by auto
next
  case (Seq r1 r2)
  from Seq.prems(1) obtain mid where m: "mid \<in> set (matches r1 st)" "st' \<in> set (matches r2 mid)"
    unfolding in_matches_Seq by blast
  from Seq.prems(2) have "consumes r1 \<or> consumes r2" by simp
  then show ?case
  proof
    assume "consumes r1"
    then show ?thesis using Seq.IH(1)[OF m(1)] matches_length[OF m(2)] by simp
  next
    assume "consumes r2"
    then show ?thesis using Seq.IH(2)[OF m(2)] matches_length[OF m(1)] by simp
  qed
next
  case (Alt r1 r2)
  then show ?case by (cases st; cases st') auto
next
  case (Group n r)
  then show ?case unfolding in_matches_Group by (cases st; cases st') auto
qed auto

lemma consumes_lits [simp]: "consumes (lits s) \<longleftrightarrow> s \<noteq> []"
  by (induction s) auto

lemma stars_consume_lits [simp]: "stars_consume (lits s)"
  by (induction s) auto

lemma patterns_consume:
  "consumes struct_pattern" "consumes func_pattern" "consumes field_pattern"
  "consumes attr_pattern" "consumes (impl_pattern nm)"
  by (simp_all add: struct_pattern_def func_pattern_def field_pattern_def attr_pattern_def
      impl_pattern_def doc_group_def generics_def Plus_def Opt_def)

lemma patterns_stars_consume:
  "stars_consume struct_pattern" "stars_consume func_pattern" "stars_consume field_pattern"
  "stars_consume attr_pattern" "stars_consume (impl_pattern nm)"
  by (simp_all add: struct_pattern_def func_pattern_def field_pattern_def attr_pattern_def
      impl_pattern_def doc_group_def generics_def Plus_def Opt_def)

lemma stars_consume_progress:
  "stars_consume (Star r) \<Longrightarrow> st' \<in> set (matches r st) \<Longrightarrow> length (fst st') < length (fst st)"
  using matches_consumes by simp

section \<open>The first match of a greedy group\<close>

text \<open>The match Python reports is the first in backtracking order: a greedy class
  repetition takes the longest run it can, so the type of a field is the run of characters
  up to the first comma or newline after the colon.\<close>

lemma concat_map_first:
  "concat (map f xs) = y # ys \<Longrightarrow> \<exists>x \<in> set xs. \<exists>zs. f x = y # zs"
proof (induction xs)
  case Nil
  then show ?case by simp
next
  case (Cons x xs)
  then show ?case by (cases "f x") auto
qed

lemma first_Seq:
  "matches (Seq r1 r2) st = y # ys \<Longrightarrow> \<exists>mid \<in> set (matches r1 st). \<exists>zs. matches r2 mid = y # zs"
  using concat_map_first[of "matches r2" "matches r1 st" y ys] by simp

lemma group_capture:
  assumes "st' \<in> set (matches (Group n r) st)"
  shows "\<exists>w. fst st = w @ fst st' \<and> snd st' n = Some w"
proof -
  from assms obtain mid where mid: "mid \<in> set (matches r st)" "fst st' = fst mid"
    "snd st' = (snd mid)(n \<mapsto> take (length (fst st) - length (fst mid)) (fst st))"
    unfolding in_matches_Group by blast
  from matches_suffix[OF mid(1)] obtain w where w: "fst st = w @ fst mid" by blast
  then show ?thesis using mid(2,3) by simp
qed

lemma star_atom_split:
  assumes "st' \<in> set (matches (Star (Atom a)) st)"
  shows "\<exists>w. fst st = w @ fst st' \<and> (\<forall>x \<in> set w. atom_ok a x)"
proof -
  from matches_suffix[OF assms] obtain w where w: "fst st = w @ fst st'" by blast
  then have "matched_text st st' = w" by (simp add: matched_text_def)
  with star_atom_text[OF assms] w show ?thesis by blast
qed

lemma finditer_from_first:
  "m \<in> set (finditer_from r content pos) \<Longrightarrow>
   \<exists>p rest zs. matches r (drop p content, Map.empty) = (rest, m_group m) # zs"
proof (induction r content pos rule: finditer_from.induct)
  case (1 r content pos)
  show ?case
  proof (cases "length content < pos")
    case True
    with "1.prems" show ?thesis by (subst (asm) finditer_from.simps) simp
  next
    case False
    show ?thesis
    proof (cases "matches r (drop pos content, Map.empty)")
      case Nil
      with False "1.prems" have "m \<in> set (finditer_from r content (Suc pos))"
        by (subst (asm) finditer_from.simps) simp
      with "1.IH"(1)[OF False Nil] show ?thesis .
    next
      case (Cons st rest)
      define e where "e = length content - length (fst st)"
      from False Cons "1.prems" consider "m = \<lparr>m_start = pos, m_end = e, m_group = snd st\<rparr>"
        | "pos < e" "m \<in> set (finditer_from r content e)"
        | "\<not> pos < e" "m \<in> set (finditer_from r content (Suc pos))"
        by (subst (asm) finditer_from.simps) (auto simp: e_def Let_def split: if_splits)
      then show ?thesis
      proof cases
        case 1
        then have "matches r (drop pos content, Map.empty) = (fst st, m_group m) # rest"
          using Cons by simp
        then show ?thesis by (intro exI)
      next
        case 2
        show ?thesis by (rule "1.IH"(2)[OF False Cons e_def 2])
      next
        case 3
        have "\<not> pos < length content - length (fst st)" using 3(1) by (simp add: e_def)
        then show ?thesis by (rule "1.IH"(3)[OF False Cons refl _ 3(2)])
      qed
    qed
  qed
qed




lemma first_star_atom:
  "\<exists>zs. matches (Star (Atom a)) (s, c) = (dropWhile (atom_ok a) s, c) # zs"
proof (induction s)
  case Nil
  show ?case by (subst matches.simps(5)) simp
next
  case (Cons x xs)
  show ?case
  proof (cases "atom_ok a x")
    case True
    from Cons obtain zs where "matches (Star (Atom a)) (xs, c) = (dropWhile (atom_ok a) xs, c) # zs"
      by blast
    then show ?thesis using True by (subst matches.simps(5)) simp
  next
    case False
    then show ?thesis by (subst matches.simps(5)) simp
  qed
qed

lemma take_takeWhile: "take (length s - length (dropWhile P s)) s = takeWhile P s"
proof -
  have "length (takeWhile P s @ dropWhile P s) = length s" by simp
  then have l: "length s - length (dropWhile P s) = length (takeWhile P s)"
    unfolding length_append by linarith
  have "take (length (takeWhile P s)) (takeWhile P s @ dropWhile P s) = takeWhile P s"
    by (rule append_eq_conv_conj[THEN iffD1, THEN conjunct1, symmetric]) (rule refl)
  then show ?thesis unfolding l by simp
qed

lemma matches_Seq_Eps: "matches (Seq r Eps) st = matches r st"
  by (simp add: comp_def) (induction "matches r st", simp_all)

lemma first_plus_atom:
  assumes "matches (Plus (Atom a)) (s, c) = y # ys"
  shows "y = (dropWhile (atom_ok a) s, c) \<and> takeWhile (atom_ok a) s \<noteq> []"
proof (cases s)
  case Nil
  have "matches (Plus (Atom a)) ([], c) = []" by (simp add: Plus_def)
  with assms Nil show ?thesis by simp
next
  case (Cons x xs)
  show ?thesis
  proof (cases "atom_ok a x")
    case False
    have "matches (Plus (Atom a)) (x # xs, c) = []" using False by (simp add: Plus_def)
    with assms Cons show ?thesis by simp
  next
    case True
    have "matches (Plus (Atom a)) (x # xs, c) = matches (Star (Atom a)) (xs, c)"
      using True by (simp add: Plus_def)
    moreover obtain zs where "matches (Star (Atom a)) (xs, c) = (dropWhile (atom_ok a) xs, c) # zs"
      using first_star_atom by blast
    ultimately have "y = (dropWhile (atom_ok a) xs, c)" using assms Cons by simp
    then show ?thesis using Cons True by simp
  qed
qed

lemma first_plus_group:
  assumes "matches (Seq (Group n (Plus (Atom a))) Eps) (s, c) = y # ys"
  shows "y = (dropWhile (atom_ok a) s, c(n \<mapsto> takeWhile (atom_ok a) s)) \<and>
         takeWhile (atom_ok a) s \<noteq> []"
proof -
  from assms have g: "matches (Group n (Plus (Atom a))) (s, c) = y # ys"
    unfolding matches_Seq_Eps .
  then obtain y0 ys0 where p: "matches (Plus (Atom a)) (s, c) = y0 # ys0"
    and y: "y = (fst y0, (snd y0)(n \<mapsto> take (length s - length (fst y0)) s))"
    by (cases "matches (Plus (Atom a)) (s, c)") auto
  from first_plus_atom[OF p] have y0: "y0 = (dropWhile (atom_ok a) s, c)"
    and ne: "takeWhile (atom_ok a) s \<noteq> []" by simp_all
  show ?thesis using y ne unfolding y0 by (simp add: take_takeWhile)
qed


lemma finditer_first:
  "m \<in> set (finditer r content) \<Longrightarrow>
   \<exists>p rest zs. matches r (drop p content, Map.empty) = (rest, m_group m) # zs"
  unfolding finditer_def by (rule finditer_from_first)

lemma type_class_pred:
  "atom_ok (NoneOf ('','' @ [newline])) = (\<lambda>c. c \<noteq> CHR '','' \<and> c \<noteq> newline)"
  by (auto simp: fun_eq_iff)

lemma field_first_match:
  assumes "matches field_pattern (s0, c0) = (rest, g) # zs"
  shows "\<exists>pre nm sp0 sp t. s0 = pre @ nm @ sp0 @ '':'' @ sp @ t \<and>
           (\<forall>c \<in> set (sp0 @ sp). is_space c) \<and> g ''name'' = Some nm \<and>
           g ''type'' = Some (takeWhile (\<lambda>c. c \<noteq> CHR '','' \<and> c \<noteq> newline) t)"
proof -
  let ?y = "(rest, g)"
  let ?T = "Group ''type'' (Plus (Atom (NoneOf ('','' @ [newline]))))"
  let ?R5 = "Seq (Star (Atom Space)) (Seq (Atom (Chr CHR '':''))
               (Seq (Star (Atom Space)) (Seq ?T Eps)))"
  from assms obtain m1 z1 where m1: "m1 \<in> set (matches (doc_group NotNewline) (s0, c0))"
    and r1: "matches (Seq (Star (Atom Space)) (Seq (lits ''pub'') (Seq (Plus (Atom Space))
               (Seq (Group ''name'' (Plus (Atom Word))) ?R5)))) m1 = ?y # z1"
    unfolding field_pattern_def seqs.simps using first_Seq by blast
  from first_Seq[OF r1] obtain m2 z2 where m2: "m2 \<in> set (matches (Star (Atom Space)) m1)"
    and r2: "matches (Seq (lits ''pub'') (Seq (Plus (Atom Space))
               (Seq (Group ''name'' (Plus (Atom Word))) ?R5))) m2 = ?y # z2" by blast
  from first_Seq[OF r2] obtain m3 z3 where m3: "m3 \<in> set (matches (lits ''pub'') m2)"
    and r3: "matches (Seq (Plus (Atom Space))
               (Seq (Group ''name'' (Plus (Atom Word))) ?R5)) m3 = ?y # z3" by blast
  from first_Seq[OF r3] obtain m4 z4 where m4: "m4 \<in> set (matches (Plus (Atom Space)) m3)"
    and r4: "matches (Seq (Group ''name'' (Plus (Atom Word))) ?R5) m4 = ?y # z4" by blast
  from first_Seq[OF r4] obtain m5 z5 where
    m5: "m5 \<in> set (matches (Group ''name'' (Plus (Atom Word))) m4)"
    and r5: "matches ?R5 m5 = ?y # z5" by blast
  from first_Seq[OF r5] obtain m6 z6 where m6: "m6 \<in> set (matches (Star (Atom Space)) m5)"
    and r6: "matches (Seq (Atom (Chr CHR '':'')) (Seq (Star (Atom Space)) (Seq ?T Eps))) m6 =
             ?y # z6" by blast
  from first_Seq[OF r6] obtain m7 z7 where m7: "m7 \<in> set (matches (Atom (Chr CHR '':'')) m6)"
    and r7: "matches (Seq (Star (Atom Space)) (Seq ?T Eps)) m7 = ?y # z7" by blast
  from first_Seq[OF r7] obtain m8 z8 where m8: "m8 \<in> set (matches (Star (Atom Space)) m7)"
    and r8: "matches (Seq ?T Eps) m8 = ?y # z8" by blast
  from matches_suffix[OF m1] obtain w1 where w1: "s0 = w1 @ fst m1" by auto
  from matches_suffix[OF m2] obtain w2 where w2: "fst m1 = w2 @ fst m2" by auto
  from matches_suffix[OF m3] obtain w3 where w3: "fst m2 = w3 @ fst m3" by auto
  from matches_suffix[OF m4] obtain w4 where w4: "fst m3 = w4 @ fst m4" by auto
  from group_capture[OF m5] obtain nm where nm: "fst m4 = nm @ fst m5" "snd m5 ''name'' = Some nm"
    by blast
  from star_atom_split[OF m6] obtain sp0 where sp0: "fst m5 = sp0 @ fst m6"
    "\<forall>x \<in> set sp0. is_space x" by auto
  from m7 have c: "fst m6 = CHR '':'' # fst m7" unfolding in_matches_Atom by auto
  from star_atom_split[OF m8] obtain sp where sp: "fst m7 = sp @ fst m8"
    "\<forall>x \<in> set sp. is_space x" by auto
  from r8 have "matches (Seq ?T Eps) (fst m8, snd m8) = ?y # z8" by simp
  from first_plus_group[OF this]
  have y: "?y = (dropWhile (atom_ok (NoneOf ('','' @ [newline]))) (fst m8),
                 (snd m8)(''type'' \<mapsto> takeWhile (atom_ok (NoneOf ('','' @ [newline]))) (fst m8)))"
    by simp
  then have ty: "g ''type'' = Some (takeWhile (\<lambda>c. c \<noteq> CHR '','' \<and> c \<noteq> newline) (fst m8))"
    unfolding type_class_pred by simp
  have in5: "?y \<in> set (matches ?R5 m5)" unfolding r5 by simp
  have "cap_ok (\<lambda>w. w = nm) ''name'' (snd m5)" using nm(2) by (simp add: cap_ok_def)
  moreover have "\<forall>b \<in> set (group_bodies ''name'' ?R5). body_ok (\<lambda>w. w = nm) b"
    by (simp add: Plus_def)
  ultimately have "cap_ok (\<lambda>w. w = nm) ''name'' (snd ?y)" using matches_cap_ok[OF in5] by blast
  moreover have "snd ?y ''name'' \<noteq> None" using matches_keeps_groups[OF in5] nm(2) by simp
  ultimately have gn: "g ''name'' = Some nm" by (auto simp: cap_ok_def)
  have "s0 = (w1 @ w2 @ w3 @ w4) @ nm @ sp0 @ '':'' @ sp @ fst m8"
    using w1 w2 w3 w4 nm(1) sp0(1) c sp(1) by simp
  moreover have "\<forall>c \<in> set (sp0 @ sp). is_space c" using sp0(2) sp(2) by auto
  ultimately show ?thesis using gn ty by blast
qed

lemma field_of_match_written:
  assumes "m \<in> set (finditer field_pattern body)"
  shows "\<exists>f. field_of_match m = Inr f \<and>
           (\<exists>pre sp0 sp rest. body = pre @ fst f @ sp0 @ '':'' @ sp @ rest \<and>
              (\<forall>c \<in> set (sp0 @ sp). is_space c) \<and>
              fst (snd f) = rstrip_chars '','' (strip (takeWhile (\<lambda>c. c \<noteq> CHR '','' \<and> c \<noteq> newline) rest)))"
proof -
  from finditer_first[OF assms] obtain p rest zs where
    "matches field_pattern (drop p body, Map.empty) = (rest, m_group m) # zs" by blast
  from field_first_match[OF this] obtain pre nm sp0 sp t where
    d: "drop p body = pre @ nm @ sp0 @ '':'' @ sp @ t" "\<forall>c \<in> set (sp0 @ sp). is_space c"
      "m_group m ''name'' = Some nm"
      "m_group m ''type'' = Some (takeWhile (\<lambda>c. c \<noteq> CHR '','' \<and> c \<noteq> newline) t)" by blast
  have "body = take p body @ drop p body" by simp
  then have b: "body = (take p body @ pre) @ nm @ sp0 @ '':'' @ sp @ t" unfolding d(1) by simp
  let ?f = "(nm, rstrip_chars '','' (strip (takeWhile (\<lambda>c. c \<noteq> CHR '','' \<and> c \<noteq> newline) t)),
             clean_doc_comment (m_group m ''doc''))"
  have "field_of_match m = Inr ?f" using d(3,4) by (simp add: field_of_match_def)
  moreover have "\<exists>pre sp0 sp rest. body = pre @ fst ?f @ sp0 @ '':'' @ sp @ rest \<and>
              (\<forall>c \<in> set (sp0 @ sp). is_space c) \<and>
              fst (snd ?f) = rstrip_chars '','' (strip (takeWhile (\<lambda>c. c \<noteq> CHR '','' \<and> c \<noteq> newline) rest))"
    using b d(2) by (intro exI[of _ "take p body @ pre"] exI[of _ sp0] exI[of _ sp] exI[of _ t]) simp
  ultimately show ?thesis by blast
qed

lemma fields_loop_all:
  "\<forall>m \<in> set ms. \<exists>f. field_of_match m = Inr f \<and> Pf f \<Longrightarrow> \<forall>f \<in> set acc. Pf f \<Longrightarrow>
   \<exists>fl. fields_loop ms acc = Inr fl \<and> (\<forall>f \<in> set fl. Pf f)"
proof (induction ms arbitrary: acc)
  case Nil
  then show ?case by simp
next
  case (Cons m ms)
  from Cons.prems(1) obtain f where f: "field_of_match m = Inr f" "Pf f" by auto
  have "\<forall>g \<in> set (acc @ [f]). Pf g" using Cons.prems(2) f(2) by simp
  from Cons.IH[OF _ this] Cons.prems(1) f(1) show ?case by simp
qed

lemma extract_fields_written:
  "\<exists>fl. extract_fields (Some body) = Inr fl \<and>
     (\<forall>f \<in> set fl. field_ok f \<and>
        (\<exists>pre sp0 sp rest. body = pre @ fst f @ sp0 @ '':'' @ sp @ rest \<and>
           (\<forall>c \<in> set (sp0 @ sp). is_space c) \<and>
           fst (snd f) = rstrip_chars '','' (strip (takeWhile (\<lambda>c. c \<noteq> CHR '','' \<and> c \<noteq> newline) rest))))"
proof -
  have "\<forall>m \<in> set (finditer field_pattern body). \<exists>f. field_of_match m = Inr f \<and>
     (field_ok f \<and>
        (\<exists>pre sp0 sp rest. body = pre @ fst f @ sp0 @ '':'' @ sp @ rest \<and>
           (\<forall>c \<in> set (sp0 @ sp). is_space c) \<and>
           fst (snd f) = rstrip_chars '','' (strip (takeWhile (\<lambda>c. c \<noteq> CHR '','' \<and> c \<noteq> newline) rest))))"
  proof
    fix m assume m: "m \<in> set (finditer field_pattern body)"
    from field_of_match_ok[OF m] obtain f1 where f1: "field_of_match m = Inr f1" "field_ok f1"
      by blast
    from field_of_match_written[OF m] obtain f2 where f2: "field_of_match m = Inr f2"
      "\<exists>pre sp0 sp rest. body = pre @ fst f2 @ sp0 @ '':'' @ sp @ rest \<and>
           (\<forall>c \<in> set (sp0 @ sp). is_space c) \<and>
           fst (snd f2) = rstrip_chars '','' (strip (takeWhile (\<lambda>c. c \<noteq> CHR '','' \<and> c \<noteq> newline) rest))"
      by blast
    from f1(1) f2(1) have "f1 = f2" by simp
    with f1 f2 show "\<exists>f. field_of_match m = Inr f \<and>
     (field_ok f \<and>
        (\<exists>pre sp0 sp rest. body = pre @ fst f @ sp0 @ '':'' @ sp @ rest \<and>
           (\<forall>c \<in> set (sp0 @ sp). is_space c) \<and>
           fst (snd f) = rstrip_chars '','' (strip (takeWhile (\<lambda>c. c \<noteq> CHR '','' \<and> c \<noteq> newline) rest))))"
      by blast
  qed
  from fields_loop_all[OF this, of "[]"] show ?thesis by (simp add: extract_fields_def)
qed

section \<open>The claims\<close>


text \<open>
  Claim C9.  For every input text the struct scan and the function scan return normally:
  neither reaches one of the failures a missing group would cause.  Each adds exactly one
  record per match of its pattern to the collection, so a text without a match adds none.
\<close>

theorem extraction_never_raises:
  "(\<exists>new. extract_structs ex content file_path = Inr (ex\<lparr>structs := structs ex @ new\<rparr>) \<and>
          length new = length (finditer struct_pattern content)) \<and>
   (\<exists>new. extract_functions ex content file_path = Inr (ex\<lparr>functions := functions ex @ new\<rparr>) \<and>
          length new = length (finditer func_pattern content))"
  using extract_structs_ok[of ex content file_path] extract_functions_ok[of ex content file_path]
  by blast

text \<open>A malformed text: both scans return, and neither collection grows.\<close>

theorem extraction_never_raises_witness:
  "extract_structs \<lparr>structs = [], functions = []\<rparr> ''pub struct { fn ( #[ ///'' ''lib.rs'' =
     Inr \<lparr>structs = [], functions = []\<rparr> \<and>
   extract_functions \<lparr>structs = [], functions = []\<rparr> ''pub struct { fn ( #[ ///'' ''lib.rs'' =
     Inr \<lparr>structs = [], functions = []\<rparr>"
proof -
  have "length (finditer struct_pattern ''pub struct { fn ( #[ ///'') = 0"
       "length (finditer func_pattern ''pub struct { fn ( #[ ///'') = 0"
    by code_simp+
  then show ?thesis
    using extraction_never_raises[of "\<lparr>structs = [], functions = []\<rparr>" "''pub struct { fn ( #[ ///''" "''lib.rs''"]
    by auto
qed

text \<open>
  Claim C4, as amended.  For every input text, every struct the scan extracts has a
  non-empty name and fields with non-empty names only, and every function it extracts has
  a non-empty name.  (The names of parameters are left out: they can be empty.)
\<close>

theorem extracted_names_nonempty:
  "(\<exists>new. extract_structs ex content file_path = Inr (ex\<lparr>structs := structs ex @ new\<rparr>) \<and>
          (\<forall>s \<in> set new. s_name s \<noteq> [] \<and> (\<forall>f \<in> set (s_fields s). fst f \<noteq> []))) \<and>
   (\<exists>new. extract_functions ex content file_path = Inr (ex\<lparr>functions := functions ex @ new\<rparr>) \<and>
          (\<forall>f \<in> set new. f_name f \<noteq> []))"
  using extract_structs_ok[of ex content file_path] extract_functions_ok[of ex content file_path]
  unfolding struct_ok_def field_ok_def by blast

text \<open>The amended claim at a text with one struct and one field.\<close>

theorem extracted_names_nonempty_witness:
  "\<exists>new. extract_structs \<lparr>structs = [], functions = []\<rparr> ''pub struct A { pub x: u8 }'' ''a.rs'' =
            Inr \<lparr>structs = new, functions = []\<rparr> \<and>
         map s_name new = [''A''] \<and> map s_fields new = [[(''x'', ''u8'', [])]] \<and>
         (\<forall>s \<in> set new. s_name s \<noteq> [] \<and> (\<forall>f \<in> set (s_fields s). fst f \<noteq> []))"
proof -
  have e: "extract_structs \<lparr>structs = [], functions = []\<rparr> ''pub struct A { pub x: u8 }'' ''a.rs'' =
     Inr \<lparr>structs = [\<lparr>s_name = ''A'', s_doc_comment = [], s_fields = [(''x'', ''u8'', [])],
            s_attributes = [], s_file_path = ''a.rs'', s_line_number = 1,
            s_size_calculation = None\<rparr>], functions = []\<rparr>"
    by code_simp
  from extracted_names_nonempty[of "\<lparr>structs = [], functions = []\<rparr>" "''pub struct A { pub x: u8 }''" "''a.rs''"]
  show ?thesis unfolding e by auto
qed

text \<open>
  Claim C4 as stated fails: the second argument of the generic type is split off as a
  parameter of its own, and nothing stands before its first colon.
\<close>

theorem parameter_with_empty_name:
  "extract_functions \<lparr>structs = [], functions = []\<rparr> ''fn f(m: Map<u8, ::std::u8>) {}'' ''a.rs'' =
     Inr \<lparr>structs = [],
          functions = [\<lparr>f_name = ''f'', f_doc_comment = [],
             f_signature = ''fn f(m: Map<u8, ::std::u8>) -> ()'', f_file_path = ''a.rs'',
             f_line_number = 1, f_is_public = False,
             f_parameters = [(''m'', ''Map<u8''), ([], '':std::u8>'')],
             f_return_type = ''()''\<rparr>]\<rparr>"
  by code_simp

text \<open>
  Claim C10, as amended.  For every struct body, field extraction returns, and no extracted
  field has a comma or a newline in its type.  The type is what is written after the
  field's name, a colon and white space, up to the first comma or newline, whichever comes
  first, trimmed: a type with a comma in it, or one that continues on the next line, is cut
  there rather than captured whole.
\<close>

theorem field_types_cut_at_comma_or_newline:
  "\<exists>fl. extract_fields (Some body) = Inr fl \<and>
     (\<forall>f \<in> set fl.
        CHR '','' \<notin> set (fst (snd f)) \<and> newline \<notin> set (fst (snd f)) \<and>
        (\<exists>pre sp0 sp rest.
           body = pre @ fst f @ sp0 @ '':'' @ sp @ rest \<and>
           (\<forall>c \<in> set (sp0 @ sp). is_space c) \<and>
           fst (snd f) =
             rstrip_chars '','' (strip (takeWhile (\<lambda>c. c \<noteq> CHR '','' \<and> c \<noteq> newline) rest))))"
  using extract_fields_written[of body] unfolding field_ok_def by blast

text \<open>A tuple type: the field's type is the text up to the first comma.\<close>

theorem field_types_cut_at_comma_or_newline_witness:
  "extract_fields (Some ''pub a: (u8, u16),'') = Inr [(''a'', ''(u8'', [])] \<and>
   CHR '','' \<notin> set ''(u8'' \<and> newline \<notin> set ''(u8'' \<and>
   (\<exists>pre sp0 sp rest.
      ''pub a: (u8, u16),'' = pre @ ''a'' @ sp0 @ '':'' @ sp @ rest \<and>
      (\<forall>c \<in> set (sp0 @ sp). is_space c) \<and>
      ''(u8'' = rstrip_chars '','' (strip (takeWhile (\<lambda>c. c \<noteq> CHR '','' \<and> c \<noteq> newline) rest)))"
proof -
  have e: "extract_fields (Some ''pub a: (u8, u16),'') = Inr [(''a'', ''(u8'', [])]" by code_simp
  from field_types_cut_at_comma_or_newline[of "''pub a: (u8, u16),''"]
  show ?thesis unfolding e by simp
qed

text \<open>
  Claim C10 as stated fails: a generic type broken across lines before its first comma is
  cut at the newline, not at the comma.
\<close>

theorem field_type_cut_at_newline:
  "extract_fields (Some (''pub m: Map<'' @ [newline] @ ''    K, V>,'')) =
     Inr [(''m'', ''Map<'', [])] \<and>
   fst (split_once CHR '','' (''Map<'' @ [newline] @ ''    K, V>,'')) =
     ''Map<'' @ [newline] @ ''    K'' \<and>
   ''Map<'' \<noteq> strip (''Map<'' @ [newline] @ ''    K'')"
  by code_simp

text \<open>
  Claim C8.  The text \<open>pub fn refresh(ctx: Context) -> ProgramResult {}\<close> yields exactly
  one function record, public, with the parameter \<open>(ctx, Context)\<close> and the return type
  \<open>ProgramResult\<close>.  Without the visibility marker the record is not public, and the
  function reference made from it has no section: only its three opening lines.
\<close>

theorem refresh_scenario:
  "extract_functions \<lparr>structs = [], functions = []\<rparr>
      ''pub fn refresh(ctx: Context) -> ProgramResult {}'' ''lib.rs'' =
     Inr \<lparr>structs = [],
          functions = [\<lparr>f_name = ''refresh'', f_doc_comment = [],
             f_signature = ''fn refresh(ctx: Context) -> ProgramResult'',
             f_file_path = ''lib.rs'', f_line_number = 1, f_is_public = True,
             f_parameters = [(''ctx'', ''Context'')],
             f_return_type = ''ProgramResult''\<rparr>]\<rparr> \<and>
   extract_functions \<lparr>structs = [], functions = []\<rparr>
      ''fn refresh(ctx: Context) -> ProgramResult {}'' ''lib.rs'' =
     Inr \<lparr>structs = [],
          functions = [\<lparr>f_name = ''refresh'', f_doc_comment = [],
             f_signature = ''fn refresh(ctx: Context) -> ProgramResult'',
             f_file_path = ''lib.rs'', f_line_number = 1, f_is_public = False,
             f_parameters = [(''ctx'', ''Context'')],
             f_return_type = ''ProgramResult''\<rparr>]\<rparr> \<and>
   function_reference_content
      [\<lparr>f_name = ''refresh'', f_doc_comment = [],
         f_signature = ''fn refresh(ctx: Context) -> ProgramResult'',
         f_file_path = ''lib.rs'', f_line_number = 1, f_is_public = False,
         f_parameters = [(''ctx'', ''Context'')],
         f_return_type = ''ProgramResult''\<rparr>] =
     [''# Function Reference'' @ [newline],
      ''Reference documentation for all public functions in the protocol.'' @ [newline],
      ''Total public functions: **0**'' @ [newline]]"
  by code_simp

text \<open>
  Claim C1.  The functions statistic of the index is the number of all extracted functions,
  not of the public ones: for a collection of one non-public function the index shows 1,
  while no function is public and the function reference reports 0.
\<close>

theorem index_counts_private_functions:
  "index_content ''2026-01-01 00:00:00 UTC''
      \<lparr>structs = [],
       functions = [\<lparr>f_name = ''helper'', f_doc_comment = [], f_signature = ''fn helper() -> ()'',
                     f_file_path = ''lib.rs'', f_line_number = 1, f_is_public = False,
                     f_parameters = [], f_return_type = ''()''\<rparr>]\<rparr> ! 5 =
     ''- **Functions documented**: 1'' @ [newline] \<and>
   length (filter f_is_public
      [\<lparr>f_name = ''helper'', f_doc_comment = [], f_signature = ''fn helper() -> ()'',
         f_file_path = ''lib.rs'', f_line_number = 1, f_is_public = False,
         f_parameters = [], f_return_type = ''()''\<rparr>]) = 0 \<and>
   function_reference_content
      [\<lparr>f_name = ''helper'', f_doc_comment = [], f_signature = ''fn helper() -> ()'',
         f_file_path = ''lib.rs'', f_line_number = 1, f_is_public = False,
         f_parameters = [], f_return_type = ''()''\<rparr>] ! 2 =
     ''Total public functions: **0**'' @ [newline]"
  by code_simp

text \<open>
  Claim C2, as amended.  For every collection of structs the structures reference renders
  one heading per non-empty category in the order Account, Data, Configuration, Other (the
  order of the dictionary \<open>categories\<close>), each followed by the sections of its structs in
  original extraction order.  The category of a struct is given by the classification rules,
  first match wins.
\<close>

theorem structures_reference_category_order:
  "api_structures_content ss =
     structures_reference_in_order
       [''Account Structures'', ''Data Structures'', ''Configuration Structures'',
        ''Other Structures''] ss"
  by (simp add: api_structures_content_def render_categories foldl_classify categories_init_def
      structures_reference_in_order_def category_section_def)

text \<open>A configuration struct extracted before a data struct: the Data heading comes
  first.\<close>

theorem structures_reference_category_order_witness:
  "filter (startswith ''## '')
     (api_structures_content
        [\<lparr>s_name = ''PoolConfig'', s_doc_comment = [], s_fields = [], s_attributes = [],
           s_file_path = ''a.rs'', s_line_number = 1, s_size_calculation = None\<rparr>,
         \<lparr>s_name = ''PriceInfo'', s_doc_comment = [], s_fields = [], s_attributes = [],
           s_file_path = ''a.rs'', s_line_number = 5, s_size_calculation = None\<rparr>]) =
   [''## Data Structures'' @ [newline], ''## Configuration Structures'' @ [newline]]"
  unfolding structures_reference_category_order by code_simp

text \<open>
  Claim C2 as stated fails: for the same two structs the reference is not the rendering in
  the order of the classification rules (Account, Configuration, Data, Other).
\<close>

theorem structures_reference_not_in_rule_order:
  "api_structures_content
     [\<lparr>s_name = ''PoolConfig'', s_doc_comment = [], s_fields = [], s_attributes = [],
        s_file_path = ''a.rs'', s_line_number = 1, s_size_calculation = None\<rparr>,
      \<lparr>s_name = ''PriceInfo'', s_doc_comment = [], s_fields = [], s_attributes = [],
        s_file_path = ''a.rs'', s_line_number = 5, s_size_calculation = None\<rparr>] \<noteq>
   structures_reference_in_order
     [''Account Structures'', ''Configuration Structures'', ''Data Structures'',
      ''Other Structures'']
     [\<lparr>s_name = ''PoolConfig'', s_doc_comment = [], s_fields = [], s_attributes = [],
        s_file_path = ''a.rs'', s_line_number = 1, s_size_calculation = None\<rparr>,
      \<lparr>s_name = ''PriceInfo'', s_doc_comment = [], s_fields = [], s_attributes = [],
        s_file_path = ''a.rs'', s_line_number = 5, s_size_calculation = None\<rparr>]"
  by code_simp

text \<open>
  Claim C3, as amended.  Cleaning the output of cleaning gives the same result exactly when
  that output is empty: cleaning drops every line without a leading marker and shortens
  every other, so the empty string is the only string it returns unchanged.
\<close>

theorem cleaning_idempotent_iff_empty:
  "clean_doc_comment (Some (clean_doc_comment (Some s))) = clean_doc_comment (Some s)
     \<longleftrightarrow> clean_doc_comment (Some s) = []"
  using clean_fixed_point by blast

text \<open>A text without markers is cleaned to the empty string, and cleaning that again
  changes nothing.\<close>

theorem cleaning_idempotent_iff_empty_witness:
  "clean_doc_comment (Some ''plain text'') = [] \<and>
   clean_doc_comment (Some (clean_doc_comment (Some ''plain text''))) =
     clean_doc_comment (Some ''plain text'')"
proof -
  have e: "clean_doc_comment (Some ''plain text'') = []" by code_simp
  then show ?thesis using cleaning_idempotent_iff_empty[of "''plain text''"] by blast
qed

text \<open>
  Claim C3 as stated fails: \<open>/// a\<close> is cleaned to \<open>a\<close>, and \<open>a\<close>, which has no
  marker, is cleaned to the empty string.
\<close>

theorem cleaning_not_idempotent:
  "clean_doc_comment (Some ''/// a'') = ''a'' \<and>
   clean_doc_comment (Some (clean_doc_comment (Some ''/// a''))) = [] \<and>
   clean_doc_comment (Some (clean_doc_comment (Some ''/// a''))) \<noteq> clean_doc_comment (Some ''/// a'')"
  by code_simp

text \<open>
  Claim C5.  For every collection of functions the function reference consists of its
  opening lines, the third of which shows the number of public records of the collection,
  and of groups of sections; the functions with a section are, counted with repetition,
  exactly the public records of the collection.
\<close>

theorem function_reference_public_only:
  "\<exists>groups.
     function_reference_content fns =
       [''# Function Reference'' @ [newline],
        ''Reference documentation for all public functions in the protocol.'' @ [newline],
        ''Total public functions: **'' @ str_nat (length (filter f_is_public fns)) @ ''**'' @
          [newline]] @
       concat (map (\<lambda>(file_path, members).
                      (''## '' @ file_path @ [newline]) #
                      concat (map generate_function_section members)) groups) \<and>
     mset (concat (map snd groups)) = mset (filter f_is_public fns)"
proof -
  let ?groups = "sort_key fst (foldl by_file_add [] (filter f_is_public fns))"
  have "mset (concat (map snd ?groups)) = mset (filter f_is_public fns)"
    by (rule groups_mset[OF by_file_inv_sort[OF foldl_by_file_inv]])
  then show ?thesis
    unfolding function_reference_content_def Let_def render_groups by blast
qed

text \<open>One public and one non-public function: the count is 1 and only the public one has
  a section.\<close>

theorem function_reference_public_only_witness:
  "\<exists>groups.
     function_reference_content
       [\<lparr>f_name = ''open'', f_doc_comment = [], f_signature = ''fn open() -> ()'',
          f_file_path = ''a.rs'', f_line_number = 1, f_is_public = True,
          f_parameters = [], f_return_type = ''()''\<rparr>,
        \<lparr>f_name = ''hidden'', f_doc_comment = [], f_signature = ''fn hidden() -> ()'',
          f_file_path = ''a.rs'', f_line_number = 2, f_is_public = False,
          f_parameters = [], f_return_type = ''()''\<rparr>] =
       [''# Function Reference'' @ [newline],
        ''Reference documentation for all public functions in the protocol.'' @ [newline],
        ''Total public functions: **1**'' @ [newline]] @
       concat (map (\<lambda>(file_path, members).
                      (''## '' @ file_path @ [newline]) #
                      concat (map generate_function_section members)) groups) \<and>
     mset (concat (map snd groups)) =
       {#\<lparr>f_name = ''open'', f_doc_comment = [], f_signature = ''fn open() -> ()'',
          f_file_path = ''a.rs'', f_line_number = 1, f_is_public = True,
          f_parameters = [], f_return_type = ''()''\<rparr>#}"
proof -
  have "str_nat 1 = ''1''" by code_simp
  then show ?thesis
    using function_reference_public_only
       [of "[\<lparr>f_name = ''open'', f_doc_comment = [], f_signature = ''fn open() -> ()'',
          f_file_path = ''a.rs'', f_line_number = 1, f_is_public = True,
          f_parameters = [], f_return_type = ''()''\<rparr>,
        \<lparr>f_name = ''hidden'', f_doc_comment = [], f_signature = ''fn hidden() -> ()'',
          f_file_path = ''a.rs'', f_line_number = 2, f_is_public = False,
          f_parameters = [], f_return_type = ''()''\<rparr>]"]
    by simp
qed

text \<open>
  Claim C6.  The function reference has one group per distinct source path of the public
  functions, the groups in ascending lexicographic order of the paths; a group is its
  heading followed by the sections of the public functions of that path in original
  extraction order.
\<close>

theorem function_reference_groups_sorted:
  "function_reference_content fns =
     [''# Function Reference'' @ [newline],
      ''Reference documentation for all public functions in the protocol.'' @ [newline],
      ''Total public functions: **'' @ str_nat (length (filter f_is_public fns)) @ ''**'' @
        [newline]] @
     concat (map (\<lambda>p. (''## '' @ p @ [newline]) #
                     concat (map generate_function_section
                       (filter (\<lambda>f. f_file_path f = p) (filter f_is_public fns))))
              (sorted_list_of_set (f_file_path ` set (filter f_is_public fns))))"
  unfolding function_reference_content_def Let_def render_groups
    sorted_groups[OF foldl_by_file_inv]
  by (simp add: comp_def)

text \<open>Functions extracted from \<open>b.src\<close>, \<open>a.src\<close>, \<open>b.src\<close>: the group of
  \<open>a.src\<close> comes first, and the two functions of \<open>b.src\<close> keep their order.\<close>

theorem function_reference_groups_sorted_witness:
  "filter (startswith ''##'')
     (function_reference_content
       [\<lparr>f_name = ''g'', f_doc_comment = [], f_signature = ''fn g() -> ()'',
          f_file_path = ''b.src'', f_line_number = 1, f_is_public = True,
          f_parameters = [], f_return_type = ''()''\<rparr>,
        \<lparr>f_name = ''h'', f_doc_comment = [], f_signature = ''fn h() -> ()'',
          f_file_path = ''a.src'', f_line_number = 1, f_is_public = True,
          f_parameters = [], f_return_type = ''()''\<rparr>,
        \<lparr>f_name = ''k'', f_doc_comment = [], f_signature = ''fn k() -> ()'',
          f_file_path = ''b.src'', f_line_number = 9, f_is_public = True,
          f_parameters = [], f_return_type = ''()''\<rparr>]) =
   [''## a.src'' @ [newline], ''### h'' @ [newline],
    ''## b.src'' @ [newline], ''### g'' @ [newline], ''### k'' @ [newline]]"
  unfolding function_reference_groups_sorted by code_simp

text \<open>
  Claim C7.  If no struct of the collection has the zero-copy marker in its attributes, the
  zero-copy reference leaves the output directory as it is: no file is written.  If some
  struct has it, exactly the file \<open>zero-copy-reference.md\<close> is written, and it holds the
  heading, the count of qualifying structs and one section per qualifying struct, in the
  order of the collection.  The section of a struct opens with the heading line of its name
  and its location line, and closes with an empty line.
\<close>

theorem zero_copy_reference_skipped_or_written:
  "((\<forall>s \<in> set (structs ex). \<not> py_in ''account(zero_copy)'' (join '' '' (s_attributes s))) \<longrightarrow>
      generate_zero_copy_reference ex fs = fs) \<and>
   ((\<exists>s \<in> set (structs ex). py_in ''account(zero_copy)'' (join '' '' (s_attributes s))) \<longrightarrow>
      generate_zero_copy_reference ex fs =
        fs(''zero-copy-reference.md'' \<mapsto>
           concat
             ([''# Zero-Copy Structures Reference'' @ [newline],
               ''This document provides detailed reference information for all zero-copy structures '',
               ''in the Solana Borrow-Lending Protocol.'' @ [newline],
               ''## Overview'' @ [newline],
               ''Total zero-copy structures: **'' @
                 str_nat (length (filter (\<lambda>s. py_in ''account(zero_copy)'' (join '' '' (s_attributes s)))
                                         (structs ex))) @ ''**'' @ [newline]] @
              concat (map generate_struct_section
                        (filter (\<lambda>s. py_in ''account(zero_copy)'' (join '' '' (s_attributes s)))
                                (structs ex)))))) \<and>
   (\<exists>rest. generate_struct_section struct =
      (''### '' @ s_name struct @ [newline]) #
      (''**Location**: `'' @ s_file_path struct @ '':'' @ str_nat (s_line_number struct) @ ''`'' @
         [newline]) # rest @ [[newline]])"
proof (intro conjI)
  show "\<exists>rest. generate_struct_section struct =
      (''### '' @ s_name struct @ [newline]) #
      (''**Location**: `'' @ s_file_path struct @ '':'' @ str_nat (s_line_number struct) @ ''`'' @
         [newline]) # rest @ [[newline]]"
    by (simp add: generate_struct_section_def)
qed (auto simp: generate_zero_copy_reference_def Let_def filter_empty_conv write_file_def
        zero_copy_content_def foldl_extend)

text \<open>Starting from an empty directory: without a qualifying struct the file does not
  exist afterwards; with one qualifying struct among two, the file is the heading, the
  count 1 and the section of that struct alone.\<close>

theorem zero_copy_reference_skipped_or_written_witness:
  "generate_zero_copy_reference
      \<lparr>structs = [\<lparr>s_name = ''Plain'', s_doc_comment = [], s_fields = [],
                    s_attributes = [''derive(Debug)''], s_file_path = ''a.rs'', s_line_number = 1,
                    s_size_calculation = None\<rparr>], functions = []\<rparr> Map.empty
      ''zero-copy-reference.md'' = None \<and>
   generate_zero_copy_reference
      \<lparr>structs = [\<lparr>s_name = ''Plain'', s_doc_comment = [], s_fields = [],
                    s_attributes = [''derive(Debug)''], s_file_path = ''a.rs'', s_line_number = 1,
                    s_size_calculation = None\<rparr>,
                  \<lparr>s_name = ''Reserve'', s_doc_comment = ''Holds reserve state'',
                    s_fields = [(''pad'', ''u8'', [])],
                    s_attributes = [''account(zero_copy)''], s_file_path = ''a.rs'',
                    s_line_number = 3, s_size_calculation = None\<rparr>], functions = []\<rparr> Map.empty
      ''zero-copy-reference.md'' =
     Some (''# Zero-Copy Structures Reference'' @ [newline] @
           ''This document provides detailed reference information for all zero-copy structures '' @
           ''in the Solana Borrow-Lending Protocol.'' @ [newline] @
           ''## Overview'' @ [newline] @
           ''Total zero-copy structures: **1**'' @ [newline] @
           ''### Reserve'' @ [newline] @
           ''**Location**: `a.rs:3`'' @ [newline] @
           ''**Attributes**: `account(zero_copy)`'' @ [newline] @
           ''Holds reserve state'' @ [newline] @
           ''**Fields**:'' @ [newline] @
           ''- `pad: u8`'' @ [newline] @
           [newline])"
proof -
  let ?plain = "\<lparr>s_name = ''Plain'', s_doc_comment = [], s_fields = [],
                    s_attributes = [''derive(Debug)''], s_file_path = ''a.rs'', s_line_number = 1,
                    s_size_calculation = None\<rparr>"
  let ?reserve = "\<lparr>s_name = ''Reserve'', s_doc_comment = ''Holds reserve state'',
                    s_fields = [(''pad'', ''u8'', [])],
                    s_attributes = [''account(zero_copy)''], s_file_path = ''a.rs'',
                    s_line_number = 3, s_size_calculation = None\<rparr>"
  have a: "\<not> py_in ''account(zero_copy)'' (join '' '' [''derive(Debug)''])" by code_simp
  have b: "py_in ''account(zero_copy)'' (join '' '' [''account(zero_copy)''])" by code_simp
  have skip: "generate_zero_copy_reference \<lparr>structs = [?plain], functions = []\<rparr> Map.empty = Map.empty"
    using a zero_copy_reference_skipped_or_written
        [of "\<lparr>structs = [?plain], functions = []\<rparr>" Map.empty]
    by (simp del: py_in.simps join.simps)
  have written: "generate_zero_copy_reference \<lparr>structs = [?plain, ?reserve], functions = []\<rparr> Map.empty =
      Map.empty(''zero-copy-reference.md'' \<mapsto>
           concat
             ([''# Zero-Copy Structures Reference'' @ [newline],
               ''This document provides detailed reference information for all zero-copy structures '',
               ''in the Solana Borrow-Lending Protocol.'' @ [newline],
               ''## Overview'' @ [newline],
               ''Total zero-copy structures: **'' @
                 str_nat (length (filter (\<lambda>s. py_in ''account(zero_copy)'' (join '' '' (s_attributes s)))
                                         [?plain, ?reserve])) @ ''**'' @ [newline]] @
              concat (map generate_struct_section
                        (filter (\<lambda>s. py_in ''account(zero_copy)'' (join '' '' (s_attributes s)))
                                [?plain, ?reserve]))))"
    using b zero_copy_reference_skipped_or_written
        [of "\<lparr>structs = [?plain, ?reserve], functions = []\<rparr>" Map.empty]
    by (simp del: py_in.simps join.simps)
  show ?thesis unfolding skip written by code_simp
qed

end
